theory Spec2Isabelle
  imports Main "HOL-Library.Sublist"
begin

section \<open>Envelope parser (ingest/parsers.py)\<close>

subsection \<open>Bytes, JSON values and the library the parser calls\<close>

text \<open>
  Python \<open>bytes\<close> are lists of 8-bit characters. The input stream is an in-memory
  stream: the list of bytes not read yet; \<open>read(n)\<close> hands out the first \<open>n\<close> of them.
\<close>

type_synonym bytes = "char list"

definition NL :: char where
  "NL = CHR 0x0A"

definition stream_read :: "nat \<Rightarrow> bytes \<Rightarrow> bytes \<times> bytes" where
  "stream_read n s = (take n s, drop n s)"

text \<open>
  What \<open>json.loads\<close> returns. Python's \<open>None\<close> is \<open>JNull\<close>; a \<open>dict\<close> is an association
  list read with \<open>map_of\<close>. Python floats are kept abstract (type \<open>'f\<close>).
\<close>

datatype 'f json =
    JNull
  | JBool bool
  | JInt int
  | JFloat 'f
  | JStr string
  | JArr "'f json list"
  | JObj "(string \<times> 'f json) list"

datatype error =
    ParseError string
  | TypeError
  | AssertionError
  | UnicodeDecodeError
  | ValueError
  | RecursionError

text \<open>The outcomes of \<open>json.loads(b.decode("utf-8"))\<close>: a value; \<open>JSONDecodeError\<close>, the one
  exception \<open>_parse_headers\<close> catches; and the exceptions it lets through:
  \<open>UnicodeDecodeError\<close> from \<open>decode\<close>, \<open>ValueError\<close> for an integer of too many digits,
  \<open>RecursionError\<close> for nesting that is too deep.\<close>

datatype 'f loads_result =
    Loaded "'f json"
  | JSONDecodeError
  | NotUTF8
  | IntegerTooLong
  | NestingTooDeep

text \<open>
  The standard library is a parameter of the model: \<open>json_loads\<close> stands for
  \<open>json.loads(b.decode("utf-8"))\<close>, and \<open>float_needed_le f count n\<close> for the float
  comparison \<open>f - count <= n\<close>.
\<close>

record 'f pylib =
  json_loads :: "bytes \<Rightarrow> 'f loads_result"
  float_needed_le :: "'f \<Rightarrow> int \<Rightarrow> nat \<Rightarrow> bool"

subsection \<open>Finders\<close>

fun bytes_find :: "bytes \<Rightarrow> char \<Rightarrow> nat option" where
  "bytes_find [] c = None"
| "bytes_find (x # xs) c = (if x = c then Some 0 else map_option Suc (bytes_find xs c))"

text \<open>Python slices \<open>chunk[:n]\<close> and \<open>chunk[n:]\<close> for an integer \<open>n\<close>: a negative \<open>n\<close> counts
  from the end.\<close>

definition slice_index :: "int \<Rightarrow> bytes \<Rightarrow> nat" where
  "slice_index n chunk = nat (if n < 0 then int (length chunk) + n else n)"

definition slice_to :: "int \<Rightarrow> bytes \<Rightarrow> bytes" where
  "slice_to n chunk = take (slice_index n chunk) chunk"

definition slice_from :: "int \<Rightarrow> bytes \<Rightarrow> bytes" where
  "slice_from n chunk = drop (slice_index n chunk) chunk"

text \<open>A finder object: \<open>NewlineFinder\<close> has \<open>error_for_eof = None\<close> and no state;
  \<open>LengthFinder\<close> carries \<open>length\<close> (whatever value the header gave), \<open>error_for_eof\<close> and
  \<open>count\<close>.\<close>

datatype 'f finder =
    NewlineFinder
  | LengthFinder "'f json" "string option" int

fun error_for_eof :: "'f finder \<Rightarrow> string option" where
  "error_for_eof NewlineFinder = None"
| "error_for_eof (LengthFinder l e c) = e"

text \<open>\<open>process(output_stream, chunk)\<close> returns \<open>(done, remainder)\<close>; the model also returns the
  finder (its \<open>count\<close> may have changed) and the contents of the output stream.\<close>

type_synonym 'f processed = "bool \<times> bytes \<times> 'f finder \<times> bytes"

definition NewlineFinder_process :: "bytes \<Rightarrow> bytes \<Rightarrow> error + 'f processed" where
  "NewlineFinder_process out chunk =
     (case bytes_find chunk NL of
        Some index \<Rightarrow> Inr (True, drop (index + 1) chunk, NewlineFinder, out @ take index chunk)
      | None \<Rightarrow> Inr (False, [], NewlineFinder, out @ chunk))"

definition LengthFinder_int ::
  "'f json \<Rightarrow> string option \<Rightarrow> int \<Rightarrow> int \<Rightarrow> bytes \<Rightarrow> bytes \<Rightarrow> error + 'f processed" where
  "LengthFinder_int l e count needed out chunk =
     (if needed \<le> int (length chunk)
      then Inr (True, slice_from needed chunk, LengthFinder l e count, out @ slice_to needed chunk)
      else Inr (False, [], LengthFinder l e (count + int (length chunk)), out @ chunk))"

fun LengthFinder_process ::
  "'f pylib \<Rightarrow> 'f json \<Rightarrow> string option \<Rightarrow> int \<Rightarrow> bytes \<Rightarrow> bytes \<Rightarrow> error + 'f processed" where
  "LengthFinder_process L (JInt n) e count out chunk =
     LengthFinder_int (JInt n) e count (n - count) out chunk"
| "LengthFinder_process L (JBool b) e count out chunk =
     LengthFinder_int (JBool b) e count ((if b then 1 else 0) - count) out chunk"
| "LengthFinder_process L (JFloat f) e count out chunk =
     (if float_needed_le L f count (length chunk) then Inl TypeError
      else Inr (False, [], LengthFinder (JFloat f) e (count + int (length chunk)), out @ chunk))"
| "LengthFinder_process L l e count out chunk = Inl TypeError"

fun process :: "'f pylib \<Rightarrow> 'f finder \<Rightarrow> bytes \<Rightarrow> bytes \<Rightarrow> error + 'f processed" where
  "process L NewlineFinder out chunk = NewlineFinder_process out chunk"
| "process L (LengthFinder l e count) out chunk = LengthFinder_process L l e count out chunk"

subsection \<open>readuntil\<close>

text \<open>\<open>readuntil\<close> returns \<open>(remainder, at_eof)\<close>; the model adds the input stream after the
  reads and the contents of the output stream. A raised exception is \<open>Inl\<close>.\<close>

type_synonym readuntil_result = "(bytes \<times> bool) \<times> bytes \<times> bytes"

function readuntil_loop ::
  "'f pylib \<Rightarrow> nat \<Rightarrow> 'f finder \<Rightarrow> bytes \<Rightarrow> bytes \<Rightarrow> error + readuntil_result" where
  "readuntil_loop L chunk_size finder input_stream out =
     (if take chunk_size input_stream = []
      then (case error_for_eof finder of
              None \<Rightarrow> Inr (([], True), drop chunk_size input_stream, out)
            | Some msg \<Rightarrow> Inl (ParseError msg))
      else (case process L finder out (take chunk_size input_stream) of
              Inl e \<Rightarrow> Inl e
            | Inr (done, remainder, finder', out') \<Rightarrow>
                if done then Inr ((remainder, False), drop chunk_size input_stream, out')
                else readuntil_loop L chunk_size finder' (drop chunk_size input_stream) out'))"
  by pat_completeness auto
termination
  by (relation "measure (\<lambda>(L, chunk_size, finder, input_stream, out). length input_stream)") auto

declare readuntil_loop.simps [simp del]

definition readuntil ::
  "'f pylib \<Rightarrow> nat \<Rightarrow> 'f finder \<Rightarrow> bytes \<Rightarrow> bytes \<Rightarrow> bytes \<Rightarrow> error + readuntil_result" where
  "readuntil L chunk_size finder initial_chunk input_stream out =
     (case process L finder out initial_chunk of
        Inl e \<Rightarrow> Inl e
      | Inr (done, remainder, finder', out') \<Rightarrow>
          if done then Inr ((remainder, False), input_stream, out')
          else readuntil_loop L chunk_size finder' input_stream out')"

subsection \<open>StreamingEnvelopeParser\<close>

record 'f parser =
  input_stream :: bytes
  chunk_size :: nat
  remainder :: bytes
  at_eof :: bool
  envelope_headers :: "'f json"

definition StreamingEnvelopeParser :: "bytes \<Rightarrow> nat \<Rightarrow> 'f parser" where
  "StreamingEnvelopeParser stream n =
     \<lparr>input_stream = stream, chunk_size = n, remainder = [], at_eof = False,
      envelope_headers = JNull\<rparr>"

definition eof_headers_message :: string where
  "eof_headers_message = ''EOF when reading headers; what is this a header for then?''"

definition eof_length_message :: string where
  "eof_length_message = ''EOF while reading item with explicitly specified length''"

text \<open>\<open>self.remainder, self.at_eof = readuntil(...)\<close>: the assignment, with the stream
  advanced by the reads.\<close>

definition set_position :: "'f parser \<Rightarrow> bytes \<times> bool \<Rightarrow> bytes \<Rightarrow> 'f parser" where
  "set_position st r s =
     st\<lparr>remainder := fst r, at_eof := snd r, input_stream := s\<rparr>"

definition parse_headers :: "'f pylib \<Rightarrow> bool \<Rightarrow> 'f parser \<Rightarrow> error + ('f json \<times> 'f parser)" where
  "parse_headers L eof_is_error st =
     (case readuntil L (chunk_size st) NewlineFinder (remainder st) (input_stream st) [] of
        Inl e \<Rightarrow> Inl e
      | Inr (r, s, header_stream_value) \<Rightarrow>
          let st' = set_position st r s in
          if at_eof st' \<and> header_stream_value = [] then Inr (JNull, st')
          else if at_eof st' \<and> eof_is_error then Inl (ParseError eof_headers_message)
          else (case json_loads L header_stream_value of
                  Loaded j \<Rightarrow> Inr (j, st')
                | JSONDecodeError \<Rightarrow> Inl (ParseError ''Header not JSON'')
                | NotUTF8 \<Rightarrow> Inl UnicodeDecodeError
                | IntegerTooLong \<Rightarrow> Inl ValueError
                | NestingTooDeep \<Rightarrow> Inl RecursionError))"

definition get_envelope_headers :: "'f pylib \<Rightarrow> 'f parser \<Rightarrow> error + ('f json \<times> 'f parser)" where
  "get_envelope_headers L st =
     (case envelope_headers st of
        JNull \<Rightarrow>
          (case parse_headers L False st of
             Inl e \<Rightarrow> Inl e
           | Inr (h, st') \<Rightarrow>
               (case h of
                  JNull \<Rightarrow> Inl AssertionError
                | _ \<Rightarrow> Inr (h, st'\<lparr>envelope_headers := h\<rparr>)))
      | h \<Rightarrow> Inr (h, st))"

text \<open>\<open>"length" in item_headers\<close> and \<open>item_headers["length"]\<close> for each kind of value a
  header line can decode to.\<close>

fun contains_length :: "'f json \<Rightarrow> error + bool" where
  "contains_length (JObj kvs) = Inr (map_of kvs ''length'' \<noteq> None)"
| "contains_length (JArr xs) = Inr (JStr ''length'' \<in> set xs)"
| "contains_length (JStr s) = Inr (sublist ''length'' s)"
| "contains_length j = Inl TypeError"

fun getitem_length :: "'f json \<Rightarrow> error + 'f json" where
  "getitem_length (JObj kvs) = (case map_of kvs ''length'' of Some v \<Rightarrow> Inr v | None \<Rightarrow> Inl TypeError)"
| "getitem_length j = Inl TypeError"

definition select_finder :: "'f json \<Rightarrow> bool \<Rightarrow> error + 'f finder" where
  "select_finder item_headers has_length =
     (if has_length
      then (case getitem_length item_headers of
              Inl e \<Rightarrow> Inl e
            | Inr l \<Rightarrow> Inr (LengthFinder l (Some eof_length_message) 0))
      else Inr NewlineFinder)"

text \<open>One resumption of the generator \<open>get_items\<close> (after the envelope headers have been
  read): it stops, raises, or yields the item headers with the bytes written to the item's
  output stream (a \<open>BytesIO\<close>, as in \<open>get_items_directly\<close>).\<close>

datatype 'f step = Stop | Raise error | Yield "'f json" bytes "'f parser"

definition read_item :: "'f pylib \<Rightarrow> 'f json \<Rightarrow> bool \<Rightarrow> 'f finder \<Rightarrow> 'f parser \<Rightarrow> 'f step" where
  "read_item L item_headers has_length finder st =
     (case readuntil L (chunk_size st) finder (remainder st) (input_stream st) [] of
        Inl e \<Rightarrow> Raise e
      | Inr (r, s, body) \<Rightarrow>
          let st' = set_position st r s in
          if has_length
          then (case readuntil L (chunk_size st') NewlineFinder (remainder st') (input_stream st') [] of
                  Inl e \<Rightarrow> Raise e
                | Inr (r', s', discarded) \<Rightarrow> Yield item_headers body (set_position st' r' s'))
          else Yield item_headers body st')"

definition next_item :: "'f pylib \<Rightarrow> 'f parser \<Rightarrow> 'f step" where
  "next_item L st =
     (if at_eof st then Stop
      else (case parse_headers L True st of
              Inl e \<Rightarrow> Raise e
            | Inr (item_headers, st') \<Rightarrow>
                (case item_headers of
                   JNull \<Rightarrow> Stop
                 | _ \<Rightarrow>
                    (case contains_length item_headers of
                       Inl e \<Rightarrow> Raise e
                     | Inr has_length \<Rightarrow>
                         (case select_finder item_headers has_length of
                            Inl e \<Rightarrow> Raise e
                          | Inr finder \<Rightarrow> read_item L item_headers has_length finder st')))))"

definition unread :: "'f parser \<Rightarrow> bytes" where
  "unread st = remainder st @ input_stream st"

subsection \<open>What readuntil computes on the unread bytes\<close>

text \<open>The first line of the unread bytes and what follows its newline; the integer a
  \<open>length\<close> value stands for in \<open>length - count\<close> (\<open>bool\<close> is a subclass of \<open>int\<close>).\<close>


definition line_of :: "bytes \<Rightarrow> bytes" where
  "line_of d = takeWhile (\<lambda>c. c \<noteq> NL) d"

definition after_line :: "bytes \<Rightarrow> bytes" where
  "after_line d = tl (dropWhile (\<lambda>c. c \<noteq> NL) d)"

lemma bytes_find_None: "bytes_find xs c = None \<longleftrightarrow> c \<notin> set xs"
  by (induction xs) auto

lemma bytes_find_Some:
  "bytes_find xs c = Some i \<Longrightarrow>
     take i xs = takeWhile (\<lambda>x. x \<noteq> c) xs \<and> drop (Suc i) xs = tl (dropWhile (\<lambda>x. x \<noteq> c) xs)"
  by (induction xs arbitrary: i) (auto split: if_splits)

lemma NewlineFinder_process_found:
  "NL \<in> set chunk \<Longrightarrow>
     NewlineFinder_process out chunk =
       Inr (True, after_line chunk, NewlineFinder, out @ line_of chunk)"
proof -
  assume "NL \<in> set chunk"
  then obtain i where i: "bytes_find chunk NL = Some i"
    using bytes_find_None [of chunk NL] by (cases "bytes_find chunk NL") auto
  from bytes_find_Some [OF i] show ?thesis
    by (simp add: NewlineFinder_process_def i line_of_def after_line_def)
qed

lemma NewlineFinder_process_absent:
  "NL \<notin> set chunk \<Longrightarrow>
     NewlineFinder_process out chunk = Inr (False, [], NewlineFinder, out @ chunk)"
  using bytes_find_None [of chunk NL] by (simp add: NewlineFinder_process_def)

lemma line_of_append:
  "line_of (a @ b) = (if NL \<in> set a then line_of a else a @ line_of b)"
  by (auto simp: line_of_def takeWhile_append)

lemma after_line_append:
  "after_line (a @ b) = (if NL \<in> set a then after_line a @ b else after_line b)"
  by (induction a) (auto simp: after_line_def)

lemma line_of_absent: "NL \<notin> set d \<Longrightarrow> line_of d = d"
  by (auto simp: line_of_def)

lemma readuntil_loop_Nil:
  "readuntil_loop L cs f [] out =
     (case error_for_eof f of None \<Rightarrow> Inr (([], True), [], out) | Some m \<Rightarrow> Inl (ParseError m))"
  by (subst readuntil_loop.simps) (simp split: option.splits)

lemma loop_newline_absent:
  "0 < cs \<Longrightarrow> NL \<notin> set s \<Longrightarrow>
     readuntil_loop L cs NewlineFinder s out = Inr (([], True), [], out @ s)"
proof (induction "length s" arbitrary: s out rule: less_induct)
  case less
  show ?case
  proof (cases "s = []")
    case True
    then show ?thesis by (simp add: readuntil_loop_Nil split: option.splits)
  next
    case False
    with less.prems have t: "take cs s \<noteq> []" by simp
    have n1: "NL \<notin> set (take cs s)" using less.prems(2) by (meson in_set_takeD)
    have n2: "NL \<notin> set (drop cs s)" using less.prems(2) by (meson in_set_dropD)
    have l: "length (drop cs s) < length s" using False less.prems(1) by simp
    have "readuntil_loop L cs NewlineFinder s out =
            readuntil_loop L cs NewlineFinder (drop cs s) (out @ take cs s)"
      using t by (subst readuntil_loop.simps) (simp add: NewlineFinder_process_absent [OF n1])
    also have "\<dots> = Inr (([], True), [], (out @ take cs s) @ drop cs s)"
      by (rule less.hyps [OF l less.prems(1) n2])
    finally show ?thesis by simp
  qed
qed

lemma loop_newline_found:
  "0 < cs \<Longrightarrow> NL \<in> set s \<Longrightarrow>
     \<exists>r s'. readuntil_loop L cs NewlineFinder s out = Inr ((r, False), s', out @ line_of s)
          \<and> r @ s' = after_line s"
proof (induction "length s" arbitrary: s out rule: less_induct)
  case less
  from less.prems have ne: "s \<noteq> []" by auto
  with less.prems have t: "take cs s \<noteq> []" by simp
  have split: "s = take cs s @ drop cs s" by simp
  show ?case
  proof (cases "NL \<in> set (take cs s)")
    case True
    have "readuntil_loop L cs NewlineFinder s out =
            Inr ((after_line (take cs s), False), drop cs s, out @ line_of (take cs s))"
      using t by (subst readuntil_loop.simps) (simp add: NewlineFinder_process_found [OF True])
    moreover have "line_of s = line_of (take cs s)"
      using line_of_append [of "take cs s" "drop cs s"] True by simp
    moreover have "after_line s = after_line (take cs s) @ drop cs s"
      using after_line_append [of "take cs s" "drop cs s"] True by simp
    ultimately show ?thesis by simp
  next
    case False
    have n2: "NL \<in> set (drop cs s)"
      using less.prems(2) False by (metis Un_iff append_take_drop_id set_append)
    have l: "length (drop cs s) < length s" using ne less.prems(1) by simp
    have step: "readuntil_loop L cs NewlineFinder s out =
            readuntil_loop L cs NewlineFinder (drop cs s) (out @ take cs s)"
      using t by (subst readuntil_loop.simps) (simp add: NewlineFinder_process_absent [OF False])
    from less.hyps [OF l less.prems(1) n2, of "out @ take cs s"]
    obtain r s' where
      r: "readuntil_loop L cs NewlineFinder (drop cs s) (out @ take cs s) =
            Inr ((r, False), s', (out @ take cs s) @ line_of (drop cs s))"
      and rs: "r @ s' = after_line (drop cs s)" by blast
    have "line_of s = take cs s @ line_of (drop cs s)"
      using line_of_append [of "take cs s" "drop cs s"] False by simp
    moreover have "after_line s = after_line (drop cs s)"
      using after_line_append [of "take cs s" "drop cs s"] False by simp
    ultimately show ?thesis using step r rs by simp
  qed
qed


lemma readuntil_newline_absent:
  assumes "0 < cs" "NL \<notin> set (rem @ s)"
  shows "readuntil L cs NewlineFinder rem s out = Inr (([], True), [], out @ rem @ s)"
proof -
  from assms(2) have a: "NL \<notin> set rem" and b: "NL \<notin> set s" by auto
  show ?thesis
    by (simp add: readuntil_def NewlineFinder_process_absent [OF a]
        loop_newline_absent [OF assms(1) b])
qed

lemma readuntil_newline_found:
  assumes "0 < cs" "NL \<in> set (rem @ s)"
  shows "\<exists>r s'. readuntil L cs NewlineFinder rem s out = Inr ((r, False), s', out @ line_of (rem @ s))
          \<and> r @ s' = after_line (rem @ s)"
proof (cases "NL \<in> set rem")
  case True
  then show ?thesis
    by (simp add: readuntil_def NewlineFinder_process_found line_of_append after_line_append)
next
  case False
  with assms(2) have b: "NL \<in> set s" by auto
  from loop_newline_found [OF assms(1) b, of L "out @ rem"] False show ?thesis
    by (auto simp: readuntil_def NewlineFinder_process_absent line_of_append after_line_append)
qed

fun int_length :: "'f json \<Rightarrow> int option" where
  "int_length (JInt n) = Some n"
| "int_length (JBool b) = Some (if b then 1 else 0)"
| "int_length j = None"

lemma LengthFinder_process_int:
  "int_length l = Some n \<Longrightarrow>
     LengthFinder_process L l e c out chunk = LengthFinder_int l e c (n - c) out chunk"
  by (cases l) auto

lemma loop_length_short:
  "0 < cs \<Longrightarrow> int_length l = Some n \<Longrightarrow> int (length s) < n - c \<Longrightarrow>
     readuntil_loop L cs (LengthFinder l e c) s out =
       (case e of None \<Rightarrow> Inr (([], True), [], out @ s) | Some m \<Rightarrow> Inl (ParseError m))"
proof (induction "length s" arbitrary: s out c rule: less_induct)
  case less
  show ?case
  proof (cases "s = []")
    case True
    then show ?thesis by (simp add: readuntil_loop_Nil split: option.splits)
  next
    case False
    with less.prems have t: "take cs s \<noteq> []" by simp
    have l: "length (drop cs s) < length s" using False less.prems(1) by simp
    have lt: "int (length (drop cs s)) < n - (c + int (length (take cs s)))"
      using less.prems(3) by simp
    have nd: "\<not> n - c \<le> int (length (take cs s))"
      using less.prems(3) by simp
    have "readuntil_loop L cs (LengthFinder l e c) s out =
            readuntil_loop L cs (LengthFinder l e (c + int (length (take cs s)))) (drop cs s) (out @ take cs s)"
      using t nd
      by (subst readuntil_loop.simps)
         (simp add: LengthFinder_process_int [OF less.prems(2)] LengthFinder_int_def)
    also have "\<dots> = (case e of None \<Rightarrow> Inr (([], True), [], (out @ take cs s) @ drop cs s)
                      | Some m \<Rightarrow> Inl (ParseError m))"
      by (rule less.hyps [OF l less.prems(1) less.prems(2) lt])
    finally show ?thesis by (simp split: option.splits)
  qed
qed

lemma loop_length_enough:
  "0 < cs \<Longrightarrow> int_length l = Some n \<Longrightarrow> 0 < n - c \<Longrightarrow> n - c \<le> int (length s) \<Longrightarrow>
     \<exists>r s'. readuntil_loop L cs (LengthFinder l e c) s out =
               Inr ((r, False), s', out @ take (nat (n - c)) s)
          \<and> r @ s' = drop (nat (n - c)) s"
proof (induction "length s" arbitrary: s out c rule: less_induct)
  case less
  from less.prems have ne: "s \<noteq> []" by auto
  with less.prems have t: "take cs s \<noteq> []" by simp
  show ?case
  proof (cases "n - c \<le> int (length (take cs s))")
    case True
    have k: "nat (n - c) \<le> cs" "nat (n - c) \<le> length s" using True less.prems by auto
    have "readuntil_loop L cs (LengthFinder l e c) s out =
            Inr ((drop (nat (n - c)) (take cs s), False), drop cs s,
                 out @ take (nat (n - c)) (take cs s))"
      using t True less.prems(3)
      by (subst readuntil_loop.simps)
         (simp add: LengthFinder_process_int [OF less.prems(2)] LengthFinder_int_def
            slice_from_def slice_to_def slice_index_def)
    moreover have "take (nat (n - c)) (take cs s) = take (nat (n - c)) s"
      using k by (simp add: min_def)
    moreover have "drop (nat (n - c)) (take cs s) @ drop cs s = drop (nat (n - c)) s"
      using k by (metis append_take_drop_id drop_append length_take min_def diff_is_0_eq drop0)
    ultimately show ?thesis by simp
  next
    case False
    have l: "length (drop cs s) < length s" using ne less.prems(1) by simp
    have len: "length (take cs s) = cs" using False less.prems(4) by auto
    have p: "0 < n - (c + int (length (take cs s)))" using False by simp
    have q: "n - (c + int (length (take cs s))) \<le> int (length (drop cs s))"
      using less.prems(4) len by simp
    have step: "readuntil_loop L cs (LengthFinder l e c) s out =
            readuntil_loop L cs (LengthFinder l e (c + int (length (take cs s)))) (drop cs s) (out @ take cs s)"
      using t False
      by (subst readuntil_loop.simps)
         (simp add: LengthFinder_process_int [OF less.prems(2)] LengthFinder_int_def)
    from less.hyps [OF l less.prems(1) less.prems(2) p q]
    obtain r s' where
      r: "readuntil_loop L cs (LengthFinder l e (c + int (length (take cs s)))) (drop cs s) (out @ take cs s) =
            Inr ((r, False), s', (out @ take cs s) @ take (nat (n - (c + int (length (take cs s))))) (drop cs s))"
      and rs: "r @ s' = drop (nat (n - (c + int (length (take cs s))))) (drop cs s)" by blast
    have e1: "nat (n - c) = cs + nat (n - (c + int cs))" using False len by simp
    have "take (nat (n - c)) s = take cs s @ take (nat (n - (c + int cs))) (drop cs s)"
      unfolding e1 by (simp add: take_add)
    moreover have "drop (nat (n - c)) s = drop (nat (n - (c + int cs))) (drop cs s)"
      unfolding e1 by (simp add: add.commute)
    ultimately show ?thesis using step r rs len by simp
  qed
qed


lemma readuntil_length_short:
  assumes "0 < cs" "int_length l = Some n" "0 \<le> n - c" "int (length (rem @ s)) < n - c"
  shows "readuntil L cs (LengthFinder l e c) rem s out =
       (case e of None \<Rightarrow> Inr (([], True), [], out @ rem @ s) | Some m \<Rightarrow> Inl (ParseError m))"
proof -
  have nd: "\<not> n - c \<le> int (length rem)" using assms(4) by simp
  have lt: "int (length s) < n - (c + int (length rem))" using assms(4) by simp
  show ?thesis
    using nd
    by (simp add: readuntil_def LengthFinder_process_int [OF assms(2)] LengthFinder_int_def
        loop_length_short [OF assms(1) assms(2) lt] split: option.splits)
qed

lemma readuntil_length_enough:
  assumes "0 < cs" "int_length l = Some n" "0 \<le> n - c" "n - c \<le> int (length (rem @ s))"
  shows "\<exists>r s'. readuntil L cs (LengthFinder l e c) rem s out =
               Inr ((r, False), s', out @ take (nat (n - c)) (rem @ s))
          \<and> r @ s' = drop (nat (n - c)) (rem @ s)"
proof (cases "n - c \<le> int (length rem)")
  case True
  then have k: "nat (n - c) \<le> length rem" by simp
  show ?thesis
    using True assms(3) k
    by (simp add: readuntil_def LengthFinder_process_int [OF assms(2)] LengthFinder_int_def
        slice_from_def slice_to_def slice_index_def)
next
  case False
  have p: "0 < n - (c + int (length rem))" using False by simp
  have q: "n - (c + int (length rem)) \<le> int (length s)" using assms(4) by simp
  from loop_length_enough [OF assms(1) assms(2) p q]
  obtain r s' where
    r: "readuntil_loop L cs (LengthFinder l e (c + int (length rem))) s (out @ rem) =
          Inr ((r, False), s', (out @ rem) @ take (nat (n - (c + int (length rem)))) s)"
    and rs: "r @ s' = drop (nat (n - (c + int (length rem)))) s" by blast
  have e1: "nat (n - c) - length rem = nat (n - (c + int (length rem)))" using False by simp
  have e2: "length rem \<le> nat (n - c)" using False by simp
  have "take (nat (n - c)) (rem @ s) = rem @ take (nat (n - (c + int (length rem)))) s"
    using e1 e2 by simp
  moreover have "drop (nat (n - c)) (rem @ s) = drop (nat (n - (c + int (length rem)))) s"
    using e1 e2 by simp
  ultimately show ?thesis
    using False r rs
    by (simp add: readuntil_def LengthFinder_process_int [OF assms(2)] LengthFinder_int_def)
qed

lemma process_remainder_le:
  "process L f out chunk = Inr (d, r, f', out') \<Longrightarrow> length r \<le> length chunk"
proof (cases f)
  case NewlineFinder
  assume "process L f out chunk = Inr (d, r, f', out')"
  with NewlineFinder show ?thesis
    by (auto simp: NewlineFinder_process_def split: option.splits)
next
  case (LengthFinder l e c)
  assume "process L f out chunk = Inr (d, r, f', out')"
  with LengthFinder show ?thesis
    by (cases l) (auto simp: LengthFinder_int_def slice_from_def split: if_splits)
qed

lemma loop_unread_le:
  "readuntil_loop L cs f s out = Inr ((r, eof), s', out') \<Longrightarrow> length r + length s' \<le> length s"
proof (induction L cs f s out rule: readuntil_loop.induct)
  case (1 L cs f s out)
  show ?case
  proof (cases "take cs s = []")
    case True
    with "1.prems" show ?thesis
      by (subst (asm) readuntil_loop.simps) (auto split: option.splits)
  next
    case False
    from "1.prems" False obtain d r1 f1 o1 where
      p: "process L f out (take cs s) = Inr (d, r1, f1, o1)"
      by (subst (asm) readuntil_loop.simps) (auto split: sum.splits)
    from process_remainder_le [OF p] have le: "length r1 \<le> length (take cs s)" .
    show ?thesis
    proof (cases d)
      case True
      with "1.prems" False p have "r = r1" "s' = drop cs s"
        by (subst (asm) readuntil_loop.simps, simp)+
      with le show ?thesis by auto
    next
      case nd: False
      with "1.prems" False p have
        "readuntil_loop L cs f1 (drop cs s) o1 = Inr ((r, eof), s', out')"
        by (subst (asm) readuntil_loop.simps) simp
      with "1.IH" [OF False p refl refl refl] nd
      have "length r + length s' \<le> length (drop cs s)" by simp
      then show ?thesis by simp
    qed
  qed
qed

subsection \<open>Each resumption shortens the unread bytes\<close>


lemma after_line_shorter: "NL \<in> set d \<Longrightarrow> length (after_line d) < length d"
  by (induction d) (auto simp: after_line_def)

lemma readuntil_loop_zero:
  "readuntil_loop L 0 f s out =
     (case error_for_eof f of None \<Rightarrow> Inr (([], True), s, out) | Some m \<Rightarrow> Inl (ParseError m))"
  by (subst readuntil_loop.simps) (simp split: option.splits)

lemma readuntil_unread_le:
  assumes "readuntil L cs f rem s out = Inr ((r, eof), s', out')"
  shows "length r + length s' \<le> length rem + length s"
proof -
  from assms obtain d r1 f1 o1 where p: "process L f out rem = Inr (d, r1, f1, o1)"
    by (auto simp: readuntil_def split: sum.splits)
  from process_remainder_le [OF p] have le: "length r1 \<le> length rem" .
  show ?thesis
  proof (cases d)
    case True
    with assms p le show ?thesis by (auto simp: readuntil_def)
  next
    case False
    with assms p have "readuntil_loop L cs f1 s o1 = Inr ((r, eof), s', out')"
      by (simp add: readuntil_def)
    from loop_unread_le [OF this] show ?thesis by simp
  qed
qed

lemma readuntil_newline_lt:
  assumes "readuntil L cs NewlineFinder rem s out = Inr ((r, False), s', out')"
  shows "length r + length s' < length rem + length s"
proof (cases "NL \<in> set rem")
  case True
  with assms have "r = after_line rem" "s' = s"
    by (simp_all add: readuntil_def NewlineFinder_process_found)
  with after_line_shorter [OF True] show ?thesis by simp
next
  case nr: False
  with assms have loop: "readuntil_loop L cs NewlineFinder s (out @ rem) = Inr ((r, False), s', out')"
    by (simp add: readuntil_def NewlineFinder_process_absent)
  show ?thesis
  proof (cases "0 < cs")
    case False
    with loop show ?thesis by (simp add: readuntil_loop_zero)
  next
    case True
    show ?thesis
    proof (cases "NL \<in> set s")
      case False
      with loop loop_newline_absent [OF True False, of L "out @ rem"] show ?thesis by simp
    next
      case ns: True
      from loop_newline_found [OF True ns, of L "out @ rem"] loop
      have "r @ s' = after_line s" by auto
      then have "length r + length s' = length (after_line s)" by (metis length_append)
      with after_line_shorter [OF ns] show ?thesis by simp
    qed
  qed
qed

lemma unread_set_position [simp]: "unread (set_position st r s) = fst r @ s"
  by (simp add: unread_def set_position_def)

lemma remainder_set_position [simp]: "remainder (set_position st r s) = fst r"
  by (simp add: set_position_def)

lemma input_stream_set_position [simp]: "input_stream (set_position st r s) = s"
  by (simp add: set_position_def)

lemma envelope_headers_set_position [simp]:
  "envelope_headers (set_position st r s) = envelope_headers st"
  by (simp add: set_position_def)

lemma at_eof_set_position [simp]: "at_eof (set_position st r s) = snd r"
  by (simp add: set_position_def)

lemma chunk_size_set_position [simp]: "chunk_size (set_position st r s) = chunk_size st"
  by (simp add: set_position_def)

lemma parse_headers_item_shorter:
  assumes "parse_headers L True st = Inr (h, st')" "h \<noteq> JNull"
  shows "length (unread st') < length (unread st)"
proof -
  from assms obtain r eof s hv where
    ru: "readuntil L (chunk_size st) NewlineFinder (remainder st) (input_stream st) [] = Inr ((r, eof), s, hv)"
    and st': "st' = set_position st (r, eof) s" and ne: "\<not> eof"
    by (auto simp: parse_headers_def Let_def split: sum.splits if_splits loads_result.splits)
  from readuntil_newline_lt [of L "chunk_size st" "remainder st" "input_stream st" "[]" r s hv] ru ne
  show ?thesis by (simp add: st' unread_def)
qed

lemma read_item_unread_le:
  assumes "read_item L h b f st = Yield h' body st'"
  shows "length (unread st') \<le> length (unread st)"
proof -
  from assms obtain r eof s o1 where
    ru: "readuntil L (chunk_size st) f (remainder st) (input_stream st) [] = Inr ((r, eof), s, o1)"
    by (auto simp: read_item_def split: sum.splits)
  let ?st1 = "set_position st (r, eof) s"
  from readuntil_unread_le [OF ru] have le1: "length (unread ?st1) \<le> length (unread st)"
    by (simp add: unread_def)
  show ?thesis
  proof (cases b)
    case False
    with assms ru have "st' = ?st1" by (simp add: read_item_def)
    with le1 show ?thesis by simp
  next
    case True
    with assms ru obtain r2 eof2 s2 o2 where
      ru2: "readuntil L (chunk_size ?st1) NewlineFinder (remainder ?st1) (input_stream ?st1) [] =
              Inr ((r2, eof2), s2, o2)"
      and st': "st' = set_position ?st1 (r2, eof2) s2"
      by (auto simp: read_item_def Let_def split: sum.splits)
    from readuntil_unread_le [OF ru2] have "length (unread st') \<le> length (unread ?st1)"
      by (simp add: st' unread_def)
    with le1 show ?thesis by simp
  qed
qed

lemma next_item_shorter:
  assumes "next_item L st = Yield h body st'"
  shows "length (unread st') < length (unread st)"
proof -
  from assms obtain h1 st1 b f where
    ph: "parse_headers L True st = Inr (h1, st1)" and ne: "h1 \<noteq> JNull"
    and ri: "read_item L h1 b f st1 = Yield h body st'"
    by (auto simp: next_item_def split: if_splits sum.splits json.splits)
  from parse_headers_item_shorter [OF ph ne] read_item_unread_le [OF ri]
  show ?thesis by simp
qed

subsection \<open>The generator get_items, run to its end\<close>

text \<open>The \<open>while not self.at_eof\<close> loop: the pairs yielded, in order, and the exception
  that ended the generator, if one did. Every resumption that yields has consumed at least
  the newline of an item header, so the loop ends.\<close>

function get_items_loop :: "'f pylib \<Rightarrow> 'f parser \<Rightarrow> ('f json \<times> bytes) list \<times> error option" where
  "get_items_loop L st =
     (case next_item L st of
        Stop \<Rightarrow> ([], None)
      | Raise e \<Rightarrow> ([], Some e)
      | Yield item_headers body st' \<Rightarrow>
          (case get_items_loop L st' of (items, r) \<Rightarrow> ((item_headers, body) # items, r)))"
  by pat_completeness auto
termination
  by (relation "measure (\<lambda>(L, st). length (unread st))") (auto simp: next_item_shorter)

declare get_items_loop.simps [simp del]

text \<open>\<open>get_items\<close> reads the envelope headers first; \<open>get_items_directly\<close> gives every item
  an in-memory output stream and returns its contents.\<close>

definition get_items_directly ::
  "'f pylib \<Rightarrow> 'f parser \<Rightarrow> ('f json \<times> bytes) list \<times> error option" where
  "get_items_directly L st =
     (case get_envelope_headers L st of
        Inl e \<Rightarrow> ([], Some e)
      | Inr (h, st') \<Rightarrow> get_items_loop L st')"


subsection \<open>A sample library for concrete runs\<close>

text \<open>\<open>json.loads\<close> on the header lines used in the examples below (what Python returns for
  each of them). The floats of the sample are the multiples of one half, kept as their
  double: \<open>2.5\<close> is \<open>5\<close>, and \<open>f - count <= n\<close> is \<open>f \<le> 2 * (count + n)\<close>.\<close>

definition sample_loads :: "bytes \<Rightarrow> int loads_result" where
  \<open>sample_loads b =
     (if b = ''{}'' then Loaded (JObj [])
      else if b = ''{"length":-1}'' then Loaded (JObj [(''length'', JInt (- 1))])
      else if b = ''{"length":3}'' then Loaded (JObj [(''length'', JInt 3)])
      else if b = ''{"length":2.5}'' then Loaded (JObj [(''length'', JFloat 5)])
      else JSONDecodeError)\<close>

definition sample_lib :: "int pylib" where
  "sample_lib =
     \<lparr>json_loads = sample_loads, float_needed_le = (\<lambda>f c n. f \<le> 2 * (c + int n))\<rparr>"

subsection \<open>readuntil in terms of the unread bytes\<close>

text \<open>The unread bytes after a call are the returned remainder followed by what is left of
  the stream.\<close>

definition position :: "error + readuntil_result \<Rightarrow> error + (bytes \<times> bool \<times> bytes)" where
  "position res = map_sum id (\<lambda>((r, eof), s, out). (r @ s, eof, out)) res"

lemma readuntil_newline_position:
  assumes "0 < cs"
  shows "position (readuntil L cs NewlineFinder rem s out) =
     (if NL \<in> set (rem @ s)
      then Inr (after_line (rem @ s), False, out @ line_of (rem @ s))
      else Inr ([], True, out @ rem @ s))"
proof (cases "NL \<in> set (rem @ s)")
  case True
  from readuntil_newline_found [OF assms True, of L out] True show ?thesis
    by (auto simp: position_def)
next
  case False
  from readuntil_newline_absent [OF assms False, of L out] False show ?thesis
    by (auto simp: position_def)
qed

lemma readuntil_length_position:
  assumes "0 < cs" "int_length l = Some n" "0 \<le> n - c"
  shows "position (readuntil L cs (LengthFinder l e c) rem s out) =
     (if n - c \<le> int (length (rem @ s))
      then Inr (drop (nat (n - c)) (rem @ s), False, out @ take (nat (n - c)) (rem @ s))
      else (case e of None \<Rightarrow> Inr ([], True, out @ rem @ s) | Some m \<Rightarrow> Inl (ParseError m)))"
proof (cases "n - c \<le> int (length (rem @ s))")
  case True
  from readuntil_length_enough [OF assms True, of L e out] True show ?thesis
    by (auto simp: position_def)
next
  case False
  then have "int (length (rem @ s)) < n - c" by simp
  from readuntil_length_short [OF assms this, of L e out] False show ?thesis
    by (auto simp: position_def split: option.splits)
qed

subsection \<open>The empty stream\<close>

lemma parse_headers_empty:
  "parse_headers L b (StreamingEnvelopeParser [] cs) =
     Inr (JNull, (StreamingEnvelopeParser [] cs)\<lparr>at_eof := True\<rparr>)"
  by (simp add: parse_headers_def StreamingEnvelopeParser_def readuntil_def
      NewlineFinder_process_def readuntil_loop_Nil set_position_def)

lemma StreamingEnvelopeParser_fields [simp]:
  "input_stream (StreamingEnvelopeParser d cs) = d"
  "chunk_size (StreamingEnvelopeParser d cs) = cs"
  "remainder (StreamingEnvelopeParser d cs) = []"
  "at_eof (StreamingEnvelopeParser d cs) = False"
  "envelope_headers (StreamingEnvelopeParser d cs) = JNull"
  by (simp_all add: StreamingEnvelopeParser_def)

text \<open>
  Claim C2, on the code. On a stream with no bytes at all \<open>_parse_headers\<close> returns \<open>None\<close>, the
  "no headers" result, and raises nothing, at any chunk size; the item loop of \<open>get_items\<close>
  takes that \<open>None\<close> as the clean end of the envelope. \<open>get_envelope_headers\<close> however runs
  into its own \<open>assert self.envelope_headers is not None\<close>: on the empty stream it raises
  \<open>AssertionError\<close>, and so does \<open>get_items\<close>, where the claim says that the "no envelope
  headers" result is yielded without any error.
\<close>

theorem empty_stream_assertion:
  "parse_headers L False (StreamingEnvelopeParser [] cs) =
     Inr (JNull, (StreamingEnvelopeParser [] cs)\<lparr>at_eof := True\<rparr>)
   \<and> next_item L (StreamingEnvelopeParser [] cs) = Stop
   \<and> get_envelope_headers L (StreamingEnvelopeParser [] cs) = Inl AssertionError
   \<and> get_items_directly L (StreamingEnvelopeParser [] cs) = ([], Some AssertionError)"
  by (simp add: parse_headers_empty get_envelope_headers_def get_items_directly_def next_item_def)

subsection \<open>Headers followed by the end of the stream\<close>

lemma position_InrD:
  "position res = Inr (d, eof, out) \<Longrightarrow> \<exists>r s. res = Inr ((r, eof), s, out) \<and> r @ s = d"
  by (cases res) (auto simp: position_def)

lemma position_InlD: "position res = Inl e \<Longrightarrow> res = Inl e"
  by (cases res) (auto simp: position_def)

lemma line_of_line [simp]: "NL \<notin> set a \<Longrightarrow> line_of (a @ NL # b) = a"
  by (simp add: line_of_def takeWhile_append)

lemma after_line_line [simp]: "NL \<notin> set a \<Longrightarrow> after_line (a @ NL # b) = b"
  by (induction a) (auto simp: after_line_def)

text \<open>The last statement of \<open>_parse_headers\<close>: decode the header line, or raise.\<close>

definition decoded :: "'f pylib \<Rightarrow> bytes \<Rightarrow> 'f parser \<Rightarrow> error + ('f json \<times> 'f parser)" where
  "decoded L hv st =
     (case json_loads L hv of
        Loaded j \<Rightarrow> Inr (j, st)
      | JSONDecodeError \<Rightarrow> Inl (ParseError ''Header not JSON'')
      | NotUTF8 \<Rightarrow> Inl UnicodeDecodeError
      | IntegerTooLong \<Rightarrow> Inl ValueError
      | NestingTooDeep \<Rightarrow> Inl RecursionError)"

lemma parse_headers_at_eof:
  assumes "0 < chunk_size st" "NL \<notin> set (unread st)"
  shows "parse_headers L b st =
     (if unread st = [] then Inr (JNull, set_position st ([], True) [])
      else if b then Inl (ParseError eof_headers_message)
      else decoded L (unread st) (set_position st ([], True) []))"
  using readuntil_newline_absent [OF assms(1), of "remainder st" "input_stream st" L "[]"] assms(2)
  by (auto simp: parse_headers_def unread_def decoded_def)

lemma parse_headers_line:
  assumes "0 < chunk_size st" "NL \<in> set (unread st)"
  shows "\<exists>r s. r @ s = after_line (unread st) \<and>
     parse_headers L b st = decoded L (line_of (unread st)) (set_position st (r, False) s)"
proof -
  from readuntil_newline_found [OF assms(1), of "remainder st" "input_stream st" L "[]"] assms(2)
  obtain r s where
    ru: "readuntil L (chunk_size st) NewlineFinder (remainder st) (input_stream st) [] =
           Inr ((r, False), s, line_of (unread st))"
    and rs: "r @ s = after_line (unread st)"
    by (auto simp: unread_def)
  have "parse_headers L b st = decoded L (line_of (unread st)) (set_position st (r, False) s)"
    by (simp add: parse_headers_def ru decoded_def)
  with rs show ?thesis by blast
qed

lemma get_items_loop_Raise: "next_item L st = Raise e \<Longrightarrow> get_items_loop L st = ([], Some e)"
  by (subst get_items_loop.simps) simp

lemma get_items_loop_Stop: "next_item L st = Stop \<Longrightarrow> get_items_loop L st = ([], None)"
  by (subst get_items_loop.simps) simp

lemma eof_message_differs: "ParseError ''Header not JSON'' \<noteq> ParseError eof_headers_message"
  by (simp add: eof_headers_message_def)

text \<open>
  Claim C3, as the code has it. Let the unread bytes be non-empty header data with no newline,
  so that the end of the stream follows them directly. Read as an item's headers
  (\<open>eof_is_error=True\<close>, inside \<open>get_items\<close>) they raise the parse error "EOF when reading
  headers"; the generator yields nothing and ends with that error. Read as the envelope
  headers (\<open>eof_is_error=False\<close>) the same bytes do not raise that error: they are decoded as
  JSON. So the end-of-stream rule is not the same for the two kinds of headers: it applies to
  item headers only.
\<close>

theorem eof_after_header:
  assumes "0 < chunk_size st" "\<not> at_eof st" "unread st \<noteq> []" "NL \<notin> set (unread st)"
  shows "parse_headers L True st = Inl (ParseError eof_headers_message)
       \<and> next_item L st = Raise (ParseError eof_headers_message)
       \<and> get_items_loop L st = ([], Some (ParseError eof_headers_message))
       \<and> parse_headers L False st = decoded L (unread st) (set_position st ([], True) [])
       \<and> parse_headers L False st \<noteq> Inl (ParseError eof_headers_message)
       \<and> get_envelope_headers L (st\<lparr>envelope_headers := JNull\<rparr>)
            \<noteq> Inl (ParseError eof_headers_message)"
proof -
  have t: "parse_headers L True st = Inl (ParseError eof_headers_message)"
    using assms by (simp add: parse_headers_at_eof)
  have n: "next_item L st = Raise (ParseError eof_headers_message)"
    using assms(2) t by (simp add: next_item_def)
  have f: "parse_headers L False st = decoded L (unread st) (set_position st ([], True) [])"
    using assms by (simp add: parse_headers_at_eof)
  have d: "parse_headers L False st \<noteq> Inl (ParseError eof_headers_message)"
    unfolding f using eof_message_differs by (auto simp: decoded_def split: loads_result.splits)
  have u: "unread (st\<lparr>envelope_headers := JNull\<rparr>) = unread st" by (simp add: unread_def)
  have "parse_headers L False (st\<lparr>envelope_headers := JNull\<rparr>) =
          decoded L (unread st) (set_position (st\<lparr>envelope_headers := JNull\<rparr>) ([], True) [])"
    using assms parse_headers_at_eof [of "st\<lparr>envelope_headers := JNull\<rparr>" L False]
    by (simp add: u)
  then have g: "get_envelope_headers L (st\<lparr>envelope_headers := JNull\<rparr>)
            \<noteq> Inl (ParseError eof_headers_message)"
    using eof_message_differs
    by (auto simp: get_envelope_headers_def decoded_def split: loads_result.splits json.splits)
  from t n f d g get_items_loop_Raise [OF n] show ?thesis by simp
qed

theorem eof_after_header_witness:
  "0 < chunk_size (StreamingEnvelopeParser ''{}'' 1024 :: int parser)
   \<and> \<not> at_eof (StreamingEnvelopeParser ''{}'' 1024 :: int parser)
   \<and> unread (StreamingEnvelopeParser ''{}'' 1024 :: int parser) \<noteq> []
   \<and> NL \<notin> set (unread (StreamingEnvelopeParser ''{}'' 1024 :: int parser))
   \<and> next_item sample_lib (StreamingEnvelopeParser ''{}'' 1024) = Raise (ParseError eof_headers_message)
   \<and> parse_headers sample_lib False (StreamingEnvelopeParser ''{}'' 1024)
        \<noteq> Inl (ParseError eof_headers_message)"
proof -
  let ?st = "StreamingEnvelopeParser ''{}'' 1024 :: int parser"
  have h: "0 < chunk_size ?st" "\<not> at_eof ?st" "unread ?st \<noteq> []" "NL \<notin> set (unread ?st)"
    by (simp_all add: unread_def NL_def)
  from eof_after_header [OF h, of sample_lib]
  have "next_item sample_lib ?st = Raise (ParseError eof_headers_message)
        \<and> parse_headers sample_lib False ?st \<noteq> Inl (ParseError eof_headers_message)"
    by blast
  with h show ?thesis by blast
qed

text \<open>Claim C3 as stated says that the rule applies identically to envelope and item headers;
  on the stream \<open>{}\<close> the two readings differ.\<close>

theorem eof_after_header_counterexample:
  "parse_headers sample_lib True (StreamingEnvelopeParser ''{}'' 1024)
     = Inl (ParseError eof_headers_message)
   \<and> parse_headers sample_lib False (StreamingEnvelopeParser ''{}'' 1024)
     = Inr (JObj [], (StreamingEnvelopeParser [] 1024)\<lparr>at_eof := True\<rparr>)"
proof -
  let ?st = "StreamingEnvelopeParser ''{}'' 1024 :: int parser"
  have h: "0 < chunk_size ?st" "NL \<notin> set (unread ?st)" "unread ?st = ''{}''"
    by (simp add: unread_def NL_def)+
  have s: "set_position ?st ([], True) [] = (StreamingEnvelopeParser [] 1024)\<lparr>at_eof := True\<rparr>"
    by (simp add: set_position_def StreamingEnvelopeParser_def)
  have a: "parse_headers sample_lib True ?st = Inl (ParseError eof_headers_message)"
    by (simp add: parse_headers_at_eof [OF h(1,2)] h(3))
  have l: "json_loads sample_lib ''{}'' = Loaded (JObj [])"
    by (simp add: sample_lib_def sample_loads_def)
  have b: "parse_headers sample_lib False ?st =
             Inr (JObj [], (StreamingEnvelopeParser [] 1024)\<lparr>at_eof := True\<rparr>)"
    by (simp add: parse_headers_at_eof [OF h(1,2)] h(3) s decoded_def l)
  from a b show ?thesis by blast
qed



subsection \<open>How readuntil ends\<close>

lemma process_not_done:
  assumes "process L f out c = Inr (False, r1, f1, o1)"
  shows "r1 = [] \<and> o1 = out @ c \<and> error_for_eof f1 = error_for_eof f"
proof (cases f)
  case NewlineFinder
  with assms show ?thesis
    by (auto simp: NewlineFinder_process_def split: option.splits)
next
  case (LengthFinder l e n)
  with assms show ?thesis
    by (cases l) (auto simp: LengthFinder_int_def split: if_splits)
qed

lemma process_error:
  assumes "process L f out c = Inl e"
  shows "e = TypeError"
proof (cases f)
  case NewlineFinder
  with assms show ?thesis
    by (auto simp: NewlineFinder_process_def split: option.splits)
next
  case (LengthFinder l e n)
  with assms show ?thesis
    by (cases l) (auto simp: LengthFinder_int_def split: if_splits)
qed

text \<open>
  The spec's description of the routine, written out: the finder is offered the initial chunk
  and then the chunks read from the stream (\<open>read(chunk_size)\<close> until a read yields no bytes),
  one after the other, until its \<open>process\<close> signals done. \<open>drive_finder\<close> answers with the
  remainder of the call that signalled done (\<open>None\<close> when no call did), the chunks not offered,
  and the output written. \<open>readuntil_spec\<close> is the result the spec gives for it: stopping at
  the finder's signal, and on exhaustion a clean end for \<open>error_for_eof = None\<close> and a parse
  error carrying the message otherwise.
\<close>

function chunks_read :: "nat \<Rightarrow> bytes \<Rightarrow> bytes list" where
  "chunks_read n s = (if take n s = [] then [] else take n s # chunks_read n (drop n s))"
  by pat_completeness auto
termination
  by (relation "measure (\<lambda>(n, s). length s)") auto

declare chunks_read.simps [simp del]

fun drive_finder ::
  "'f pylib \<Rightarrow> 'f finder \<Rightarrow> bytes \<Rightarrow> bytes list \<Rightarrow> error + (bytes option \<times> bytes list \<times> bytes)" where
  "drive_finder L f out [] = Inr (None, [], out)"
| "drive_finder L f out (chunk # later) =
     (case process L f out chunk of
        Inl e \<Rightarrow> Inl e
      | Inr (done, left_over, f', out') \<Rightarrow>
          if done then Inr (Some left_over, later, out') else drive_finder L f' out' later)"

definition end_of_drive ::
  "string option \<Rightarrow> error + (bytes option \<times> bytes list \<times> bytes) \<Rightarrow> error + readuntil_result" where
  "end_of_drive policy driven =
     (case driven of
        Inl e \<Rightarrow> Inl e
      | Inr (Some left_over, later, out) \<Rightarrow> Inr ((left_over, False), concat later, out)
      | Inr (None, later, out) \<Rightarrow>
          (case policy of
             None \<Rightarrow> Inr (([], True), [], out)
           | Some msg \<Rightarrow> Inl (ParseError msg)))"

definition readuntil_spec ::
  "'f pylib \<Rightarrow> nat \<Rightarrow> 'f finder \<Rightarrow> bytes \<Rightarrow> bytes \<Rightarrow> bytes \<Rightarrow> error + readuntil_result" where
  "readuntil_spec L n finder initial_chunk stream out =
     end_of_drive (error_for_eof finder)
       (drive_finder L finder out (initial_chunk # chunks_read n stream))"

lemma chunks_read_Nil [simp]: "chunks_read n [] = []"
  by (subst chunks_read.simps) simp

lemma chunks_read_step:
  "take n s \<noteq> [] \<Longrightarrow> chunks_read n s = take n s # chunks_read n (drop n s)"
  by (subst chunks_read.simps) simp

lemma concat_chunks_read: "0 < n \<Longrightarrow> concat (chunks_read n s) = s"
proof (induction n s rule: chunks_read.induct)
  case (1 n s)
  show ?case
  proof (cases "take n s = []")
    case True
    with "1.prems" have "s = []" by simp
    then show ?thesis by simp
  next
    case False
    with "1.IH" "1.prems" show ?thesis by (simp add: chunks_read_step)
  qed
qed

lemma loop_drive:
  "0 < cs \<Longrightarrow>
     readuntil_loop L cs f s out =
       end_of_drive (error_for_eof f) (drive_finder L f out (chunks_read cs s))"
proof (induction L cs f s out rule: readuntil_loop.induct)
  case (1 L cs f s out)
  show ?case
  proof (cases "take cs s = []")
    case True
    with "1.prems" have "s = []" by simp
    then show ?thesis
      by (simp add: readuntil_loop_Nil end_of_drive_def split: option.splits)
  next
    case False
    note step = chunks_read_step [OF False]
    show ?thesis
    proof (cases "process L f out (take cs s)")
      case (Inl e)
      with False have "readuntil_loop L cs f s out = Inl e"
        by (subst readuntil_loop.simps) simp
      with Inl show ?thesis by (simp add: step end_of_drive_def)
    next
      case (Inr p)
      then obtain d r1 f1 o1 where p: "process L f out (take cs s) = Inr (d, r1, f1, o1)"
        by (cases p) auto
      show ?thesis
      proof (cases d)
        case True
        with False p have "readuntil_loop L cs f s out = Inr ((r1, False), drop cs s, o1)"
          by (subst readuntil_loop.simps) simp
        with p True "1.prems" show ?thesis
          by (simp add: step end_of_drive_def concat_chunks_read)
      next
        case nd: False
        with False p have eq: "readuntil_loop L cs f s out = readuntil_loop L cs f1 (drop cs s) o1"
          by (subst readuntil_loop.simps) simp
        from p nd have "process L f out (take cs s) = Inr (False, r1, f1, o1)" by simp
        from process_not_done [OF this] have e1: "error_for_eof f1 = error_for_eof f" by simp
        from "1.IH" [OF False p refl refl refl] nd "1.prems"
        have "readuntil_loop L cs f1 (drop cs s) o1 =
                end_of_drive (error_for_eof f1) (drive_finder L f1 o1 (chunks_read cs (drop cs s)))"
          by simp
        with p nd show ?thesis unfolding eq by (simp add: step e1)
      qed
    qed
  qed
qed

lemma readuntil_drive:
  assumes "0 < cs"
  shows "readuntil L cs f rem s out = readuntil_spec L cs f rem s out"
proof (cases "process L f out rem")
  case (Inl e)
  then show ?thesis by (simp add: readuntil_def readuntil_spec_def end_of_drive_def)
next
  case (Inr p)
  then obtain d r1 f1 o1 where p: "process L f out rem = Inr (d, r1, f1, o1)"
    by (cases p) auto
  show ?thesis
  proof (cases d)
    case True
    with p assms show ?thesis
      by (simp add: readuntil_def readuntil_spec_def end_of_drive_def concat_chunks_read)
  next
    case nd: False
    from p nd have "process L f out rem = Inr (False, r1, f1, o1)" by simp
    from process_not_done [OF this] have e1: "error_for_eof f1 = error_for_eof f" by simp
    from p nd show ?thesis
      by (simp add: readuntil_def readuntil_spec_def loop_drive [OF assms] e1)
  qed
qed

text \<open>
  Claim C5. For every finder, initial chunk, stream and chunk size, \<open>readuntil\<close> returns (it
  is a total function: each pass of its loop takes a non-empty chunk off the stream) and its
  result is the spec's: the finder is offered the initial chunk and then the chunks of the
  stream in order; at the first call that signals done \<open>readuntil\<close> stops and returns that
  call's remainder with \<open>at_eof\<close> false, the stream standing right after the chunk offered
  last; if no call signals done, the stream is exhausted, and then \<open>error_for_eof = None\<close>
  gives the clean end \<open>(b"", True)\<close> and a message gives \<open>ParseError\<close> carrying it. The chunks
  are the stream cut in order. For the finders of the parser this reads, on the unread bytes:
  a \<open>NewlineFinder\<close> stops after the first newline, having written the bytes before it, and
  ends cleanly with everything written when there is none; a \<open>LengthFinder\<close> stops after the
  bytes it still needs, and when fewer are left it ends cleanly if its \<open>error_for_eof\<close> is
  \<open>None\<close> and raises \<open>ParseError\<close> with its message otherwise.
\<close>

theorem readuntil_stops:
  assumes "0 < cs"
  shows "readuntil L cs f rem s out = readuntil_spec L cs f rem s out
       \<and> concat (chunks_read cs s) = s
       \<and> position (readuntil L cs NewlineFinder rem s out) =
           (if NL \<in> set (rem @ s)
            then Inr (after_line (rem @ s), False, out @ line_of (rem @ s))
            else Inr ([], True, out @ rem @ s))
       \<and> (0 \<le> n - c \<longrightarrow>
            position (readuntil L cs (LengthFinder (JInt n) e c) rem s out) =
              (if n - c \<le> int (length (rem @ s))
               then Inr (drop (nat (n - c)) (rem @ s), False, out @ take (nat (n - c)) (rem @ s))
               else (case e of
                       None \<Rightarrow> Inr ([], True, out @ rem @ s)
                     | Some m \<Rightarrow> Inl (ParseError m))))"
proof -
  have il: "int_length (JInt n :: 'a json) = Some n" by simp
  from readuntil_drive [OF assms] concat_chunks_read [OF assms]
    readuntil_newline_position [OF assms] readuntil_length_position [OF assms il]
  show ?thesis by blast
qed

theorem readuntil_stops_witness:
  "(0::nat) < 2
   \<and> (0::int) \<le> 3 - 0
   \<and> readuntil sample_lib 2 (LengthFinder (JInt 3) (Some ''eof'') 0) [] ''abcde'' []
       = readuntil_spec sample_lib 2 (LengthFinder (JInt 3) (Some ''eof'') 0) [] ''abcde'' []
   \<and> readuntil_spec sample_lib 2 (LengthFinder (JInt 3) (Some ''eof'') 0) [] ''abcde'' []
       = Inr ((''d'', False), ''e'', ''abc'')
   \<and> readuntil_spec sample_lib 2 (LengthFinder (JInt 3) (Some ''eof'') 0) [] ''ab'' []
       = Inl (ParseError ''eof'')
   \<and> readuntil_spec sample_lib 2 NewlineFinder [] ''abc'' [] = Inr (([], True), [], ''abc'')
   \<and> position (readuntil sample_lib 2 (LengthFinder (JInt 3) (Some ''eof'') 0) [] ''abcde'' [])
       = Inr (''de'', False, ''abc'')"
proof -
  have h: "(0::nat) < 2" by simp
  have z: "(0::int) \<le> 3 - 0" by simp
  note t = readuntil_stops [OF h, of sample_lib "LengthFinder (JInt 3) (Some ''eof'') 0"
      "[]" "''abcde''" "[]" 3 0 "Some ''eof''"]
  from t have a: "readuntil sample_lib 2 (LengthFinder (JInt 3) (Some ''eof'') 0) [] ''abcde'' []
       = readuntil_spec sample_lib 2 (LengthFinder (JInt 3) (Some ''eof'') 0) [] ''abcde'' []"
    by blast
  have b: "readuntil_spec sample_lib 2 (LengthFinder (JInt 3) (Some ''eof'') 0) [] ''abcde'' []
       = Inr ((''d'', False), ''e'', ''abc'')"
    by code_simp
  have c: "readuntil_spec sample_lib 2 (LengthFinder (JInt 3) (Some ''eof'') 0) [] ''ab'' []
       = Inl (ParseError ''eof'')"
    by code_simp
  have d: "readuntil_spec sample_lib 2 NewlineFinder [] ''abc'' [] = Inr (([], True), [], ''abc'')"
    by code_simp
  from t have "(0::int) \<le> 3 - 0 \<longrightarrow>
      position (readuntil sample_lib 2 (LengthFinder (JInt 3) (Some ''eof'') 0) [] ''abcde'' []) =
        (if (3::int) - 0 \<le> int (length ([] @ ''abcde''))
         then Inr (drop (nat (3 - 0)) ([] @ ''abcde''), False,
                   [] @ take (nat (3 - 0)) ([] @ ''abcde''))
         else (case Some ''eof'' of
                 None \<Rightarrow> Inr ([], True, [] @ [] @ ''abcde'')
               | Some m \<Rightarrow> Inl (ParseError m)))"
    by blast
  with z have e: "position (readuntil sample_lib 2 (LengthFinder (JInt 3) (Some ''eof'') 0) []
       ''abcde'' []) = Inr (''de'', False, ''abc'')"
    by simp
  from h z a b c d e show ?thesis by blast
qed

subsection \<open>Items with an explicit length\<close>

lemma read_item_length:
  assumes cs: "0 < chunk_size st" and l: "int_length l = Some n" and n: "0 \<le> n"
    and enough: "n \<le> int (length (unread st))"
  shows "\<exists>st'. read_item L h True (LengthFinder l e 0) st = Yield h (take (nat n) (unread st)) st'
           \<and> chunk_size st' = chunk_size st \<and> envelope_headers st' = envelope_headers st
           \<and> (unread st', at_eof st') =
               (if NL \<in> set (drop (nat n) (unread st))
                then (after_line (drop (nat n) (unread st)), False) else ([], True))"
proof -
  let ?d = "unread st"
  have "position (readuntil L (chunk_size st) (LengthFinder l e 0) (remainder st) (input_stream st) []) =
          Inr (drop (nat n) ?d, False, take (nat n) ?d)"
    using readuntil_length_position [OF cs l, of 0 L e "remainder st" "input_stream st" "[]"] n enough
    by (simp add: unread_def)
  from position_InrD [OF this] obtain r s where
    ru: "readuntil L (chunk_size st) (LengthFinder l e 0) (remainder st) (input_stream st) [] =
           Inr ((r, False), s, take (nat n) ?d)"
    and rs: "r @ s = drop (nat n) ?d" by blast
  let ?st1 = "set_position st (r, False) s"
  have cs1: "0 < chunk_size ?st1" using cs by simp
  let ?res = "readuntil L (chunk_size ?st1) NewlineFinder (remainder ?st1) (input_stream ?st1) []"
  have pos: "position ?res =
          (if NL \<in> set (r @ s) then Inr (after_line (r @ s), False, line_of (r @ s))
           else Inr ([], True, r @ s))"
    using readuntil_newline_position [OF cs1, of L "remainder ?st1" "input_stream ?st1" "[]"]
    by simp
  show ?thesis
  proof (cases "NL \<in> set (r @ s)")
    case True
    with pos have "position ?res = Inr (after_line (r @ s), False, line_of (r @ s))" by simp
    from position_InrD [OF this] obtain r2 s2 where
      ru2: "?res = Inr ((r2, False), s2, line_of (r @ s))" and rs2: "r2 @ s2 = after_line (r @ s)"
      by blast
    have "read_item L h True (LengthFinder l e 0) st =
            Yield h (take (nat n) ?d) (set_position ?st1 (r2, False) s2)"
      using ru ru2 by (simp add: read_item_def)
    moreover have "unread (set_position ?st1 (r2, False) s2) = after_line (drop (nat n) ?d)"
      using rs rs2 by simp
    ultimately show ?thesis using True rs by (intro exI [of _ "set_position ?st1 (r2, False) s2"]) simp
  next
    case False
    with pos have "position ?res = Inr ([], True, r @ s)" by simp
    from position_InrD [OF this] obtain r2 s2 where
      ru2: "?res = Inr ((r2, True), s2, r @ s)" and rs2: "r2 @ s2 = []"
      by blast
    have "read_item L h True (LengthFinder l e 0) st =
            Yield h (take (nat n) ?d) (set_position ?st1 (r2, True) s2)"
      using ru ru2 by (simp add: read_item_def)
    moreover have "unread (set_position ?st1 (r2, True) s2) = []"
      using rs2 by simp
    ultimately show ?thesis using False rs by (intro exI [of _ "set_position ?st1 (r2, True) s2"]) simp
  qed
qed

lemma next_item_length:
  assumes cs: "0 < chunk_size st" and ne: "\<not> at_eof st"
    and nl: "NL \<in> set (unread st)"
    and js: "json_loads L (line_of (unread st)) = Loaded (JObj kvs)"
    and len: "map_of kvs ''length'' = Some l"
    and l: "int_length l = Some n" and n: "0 \<le> n"
    and enough: "n \<le> int (length (after_line (unread st)))"
  shows "\<exists>st'. next_item L st = Yield (JObj kvs) (take (nat n) (after_line (unread st))) st'
           \<and> chunk_size st' = chunk_size st \<and> envelope_headers st' = envelope_headers st
           \<and> (unread st', at_eof st') =
               (if NL \<in> set (drop (nat n) (after_line (unread st)))
                then (after_line (drop (nat n) (after_line (unread st))), False) else ([], True))"
proof -
  from parse_headers_line [OF cs nl, of L True] js obtain r s where
    rs: "r @ s = after_line (unread st)"
    and ph: "parse_headers L True st = Inr (JObj kvs, set_position st (r, False) s)"
    by (auto simp: decoded_def)
  let ?st1 = "set_position st (r, False) s"
  have u: "unread ?st1 = after_line (unread st)" using rs by simp
  have cs1: "0 < chunk_size ?st1" using cs by simp
  have ni: "next_item L st =
          read_item L (JObj kvs) True (LengthFinder l (Some eof_length_message) 0) ?st1"
    using ne ph len by (simp add: next_item_def select_finder_def)
  from read_item_length [OF cs1 l n, of L "JObj kvs" "Some eof_length_message"] enough
  show ?thesis unfolding ni u by simp
qed

text \<open>
  Claim C4. Let an item's header line decode to an object whose \<open>length\<close> is the length \<open>L\<close> of
  \<open>body\<close>. If the unread bytes are the header line, \<open>body\<close>, a newline and \<open>rest\<close>, the
  generator yields the header with exactly \<open>body\<close> written to the item's output stream, and
  \<open>rest\<close> is what remains unread: besides the header line, \<open>L + 1\<close> bytes were consumed. If
  \<open>body\<close> is followed by the end of the stream instead, the item is yielded all the same,
  \<open>L\<close> bytes were consumed, and the parser is at end of stream; no error is raised. This
  holds for every chunk size and however the unread bytes are split between the parser's
  remainder and the stream.
\<close>

theorem item_with_length:
  assumes "0 < chunk_size st" "\<not> at_eof st" "NL \<notin> set header"
    and "json_loads L header = Loaded (JObj kvs)"
    and "map_of kvs ''length'' = Some (JInt (int (length body)))"
  shows "(if unread st = header @ NL # body @ NL # rest
          then \<exists>st'. next_item L st = Yield (JObj kvs) body st'
                 \<and> unread st' = rest \<and> \<not> at_eof st'
                 \<and> length (unread st) = length header + 1 + (length body + 1) + length (unread st')
          else True)
       \<and> (if unread st = header @ NL # body
          then \<exists>st'. next_item L st = Yield (JObj kvs) body st'
                 \<and> unread st' = [] \<and> at_eof st'
                 \<and> length (unread st) = length header + 1 + length body + length (unread st')
          else True)"
proof -
  have il: "int_length (JInt (int (length body)) :: 'a json) = Some (int (length body))" by simp
  have a: "\<exists>st'. next_item L st = Yield (JObj kvs) body st'
                 \<and> unread st' = rest \<and> \<not> at_eof st'
                 \<and> length (unread st) = length header + 1 + (length body + 1) + length (unread st')"
    if u: "unread st = header @ NL # body @ NL # rest"
  proof -
    have nl: "NL \<in> set (unread st)" by (simp add: u)
    have js: "json_loads L (line_of (unread st)) = Loaded (JObj kvs)"
      using assms(3,4) by (simp add: u)
    have al: "after_line (unread st) = body @ NL # rest" using assms(3) by (simp add: u)
    have en: "int (length body) \<le> int (length (after_line (unread st)))" by (simp add: al)
    have z: "0 \<le> int (length body)" by simp
    from next_item_length [OF assms(1,2) nl js assms(5) il z en]
    obtain st' where
      y: "next_item L st = Yield (JObj kvs) (take (nat (int (length body))) (after_line (unread st))) st'"
      and p: "(unread st', at_eof st') =
               (if NL \<in> set (drop (nat (int (length body))) (after_line (unread st)))
                then (after_line (drop (nat (int (length body))) (after_line (unread st))), False)
                else ([], True))"
      by blast
    have dr: "drop (nat (int (length body))) (after_line (unread st)) = NL # rest"
      by (simp add: al)
    have "after_line (NL # rest) = rest" by (simp add: after_line_def)
    with y p dr have "next_item L st = Yield (JObj kvs) body st'" "unread st' = rest" "\<not> at_eof st'"
      by (simp_all add: al)
    then show ?thesis by (intro exI [of _ st']) (simp add: u)
  qed
  have b: "\<exists>st'. next_item L st = Yield (JObj kvs) body st'
                 \<and> unread st' = [] \<and> at_eof st'
                 \<and> length (unread st) = length header + 1 + length body + length (unread st')"
    if u: "unread st = header @ NL # body"
  proof -
    have nl: "NL \<in> set (unread st)" by (simp add: u)
    have js: "json_loads L (line_of (unread st)) = Loaded (JObj kvs)"
      using assms(3,4) by (simp add: u)
    have al: "after_line (unread st) = body" using assms(3) by (simp add: u)
    have en: "int (length body) \<le> int (length (after_line (unread st)))" by (simp add: al)
    have z: "0 \<le> int (length body)" by simp
    from next_item_length [OF assms(1,2) nl js assms(5) il z en]
    obtain st' where
      y: "next_item L st = Yield (JObj kvs) (take (nat (int (length body))) (after_line (unread st))) st'"
      and p: "(unread st', at_eof st') =
               (if NL \<in> set (drop (nat (int (length body))) (after_line (unread st)))
                then (after_line (drop (nat (int (length body))) (after_line (unread st))), False)
                else ([], True))"
      by blast
    with y p have "next_item L st = Yield (JObj kvs) body st'" "unread st' = []" "at_eof st'"
      by (simp_all add: al)
    then show ?thesis by (intro exI [of _ st']) (simp add: u)
  qed
  from a b show ?thesis by simp
qed


definition sample_item_stream :: bytes where
  \<open>sample_item_stream = ''{"length":3}'' @ NL # ''abc'' @ NL # ''{}''\<close>

theorem item_with_length_witness:
  \<open>0 < chunk_size (StreamingEnvelopeParser sample_item_stream 2 :: int parser)
   \<and> \<not> at_eof (StreamingEnvelopeParser sample_item_stream 2 :: int parser)
   \<and> NL \<notin> set ''{"length":3}''
   \<and> json_loads sample_lib ''{"length":3}'' = Loaded (JObj [(''length'', JInt 3)])
   \<and> map_of [(''length'', JInt 3 :: int json)] ''length'' = Some (JInt (int (length ''abc'')))
   \<and> unread (StreamingEnvelopeParser sample_item_stream 2 :: int parser)
        = ''{"length":3}'' @ NL # ''abc'' @ NL # ''{}''
   \<and> (\<exists>st'. next_item sample_lib (StreamingEnvelopeParser sample_item_stream 2)
                = Yield (JObj [(''length'', JInt 3)]) ''abc'' st'
            \<and> unread st' = ''{}'' \<and> \<not> at_eof st')\<close>
proof -
  let ?st = "StreamingEnvelopeParser sample_item_stream 2 :: int parser"
  have h1: "0 < chunk_size ?st" and h2: "\<not> at_eof ?st" by simp_all
  have h3: \<open>NL \<notin> set ''{"length":3}''\<close> by (simp add: NL_def)
  have h4: \<open>json_loads sample_lib ''{"length":3}'' = Loaded (JObj [(''length'', JInt 3)])\<close>
    by (simp add: sample_lib_def sample_loads_def)
  have h5: "map_of [(''length'', JInt 3 :: int json)] ''length'' = Some (JInt (int (length ''abc'')))"
    by simp
  have u: \<open>unread ?st = ''{"length":3}'' @ NL # ''abc'' @ NL # ''{}''\<close>
    by (simp add: unread_def sample_item_stream_def)
  note t = item_with_length [OF h1 h2 h3 h4 h5, of "''{}''"]
  from conjunct1 [OF t] u
  have "\<exists>st'. next_item sample_lib ?st = Yield (JObj [(''length'', JInt 3)]) ''abc'' st'
            \<and> unread st' = ''{}'' \<and> \<not> at_eof st'"
    by (simp only: simp_thms if_True) blast
  with h1 h2 h3 h4 h5 u show ?thesis by blast
qed



subsection \<open>Chunking\<close>

text \<open>
  A \<open>length\<close> value is proper unless it is a negative integer. (With a negative \<open>length\<close> the
  \<open>LengthFinder\<close> is done at once and slices the chunk it happens to hold from the end.)
  \<open>lengths_ok\<close> follows the generator and checks the header read at the start of every
  resumption; \<open>item_lengths_proper\<close> is that check for the parse of the whole input as a
  single chunk.
\<close>

fun proper_length :: "'f json \<Rightarrow> bool" where
  "proper_length (JInt n) = (0 \<le> n)"
| "proper_length j = True"

definition header_length_ok :: "'f json \<Rightarrow> bool" where
  "header_length_ok h =
     (case h of
        JObj kvs \<Rightarrow> (case map_of kvs ''length'' of Some l \<Rightarrow> proper_length l | None \<Rightarrow> True)
      | _ \<Rightarrow> True)"

definition header_ok :: "'f pylib \<Rightarrow> 'f parser \<Rightarrow> bool" where
  "header_ok L st =
     (if at_eof st then True
      else (case parse_headers L True st of
              Inr (h, st') \<Rightarrow> header_length_ok h
            | Inl e \<Rightarrow> True))"

function lengths_ok :: "'f pylib \<Rightarrow> 'f parser \<Rightarrow> bool" where
  "lengths_ok L st =
     (if header_ok L st
      then (case next_item L st of
              Yield item_headers body st' \<Rightarrow> lengths_ok L st'
            | _ \<Rightarrow> True)
      else False)"
  by pat_completeness auto
termination
  by (relation "measure (\<lambda>(L, st). length (unread st))") (auto simp: next_item_shorter)

declare lengths_ok.simps [simp del]

definition item_lengths_proper :: "'f pylib \<Rightarrow> bytes \<Rightarrow> bool" where
  "item_lengths_proper L data =
     (case get_envelope_headers L (StreamingEnvelopeParser data (length data)) of
        Inl e \<Rightarrow> True
      | Inr (h, st') \<Rightarrow> lengths_ok L st')"

text \<open>
  Float arithmetic is the library's. The comparison \<open>length - count <= n\<close> of a float
  \<open>length\<close> is taken to agree with \<open>length - (count + n) <= 0\<close>, and to stay true when the
  count grows.
\<close>


definition float_arithmetic :: "'f pylib \<Rightarrow> bool" where
  "float_arithmetic L =
     ((\<forall>f c n. float_needed_le L f c n = float_needed_le L f (c + int n) 0)
      \<and> (\<forall>f c c'. c \<le> c' \<longrightarrow> float_needed_le L f c 0 \<longrightarrow> float_needed_le L f c' 0))"

lemma float_shift:
  "float_arithmetic L \<Longrightarrow> float_needed_le L f c n = float_needed_le L f (c + int n) 0"
  unfolding float_arithmetic_def by blast

lemma float_mono:
  "float_arithmetic L \<Longrightarrow> c \<le> c' \<Longrightarrow> float_needed_le L f c 0 \<Longrightarrow> float_needed_le L f c' 0"
  unfolding float_arithmetic_def by blast

lemma float_more:
  assumes "float_arithmetic L" "float_needed_le L f c n" "n \<le> n'"
  shows "float_needed_le L f c n'"
proof -
  from assms(2) have "float_needed_le L f (c + int n) 0"
    using float_shift [OF assms(1), of f c n] by simp
  with assms(3) have "float_needed_le L f (c + int n') 0"
    by (intro float_mono [OF assms(1), of "c + int n" "c + int n'"]) simp_all
  then show ?thesis using float_shift [OF assms(1), of f c n'] by simp
qed

lemma loop_float:
  "0 < cs \<Longrightarrow> float_arithmetic L \<Longrightarrow>
     readuntil_loop L cs (LengthFinder (JFloat f) e c) s out =
       (if s \<noteq> [] \<and> float_needed_le L f c (length s) then Inl TypeError
        else (case e of None \<Rightarrow> Inr (([], True), [], out @ s) | Some m \<Rightarrow> Inl (ParseError m)))"
proof (induction "length s" arbitrary: s out c rule: less_induct)
  case less
  note fa = less.prems(2)
  show ?case
  proof (cases "s = []")
    case True
    then show ?thesis by (simp add: readuntil_loop_Nil split: option.splits)
  next
    case False
    with less.prems have t: "take cs s \<noteq> []" by simp
    have l: "length (drop cs s) < length s" using False less.prems(1) by simp
    let ?k = "length (take cs s)"
    show ?thesis
    proof (cases "float_needed_le L f c ?k")
      case True
      have "readuntil_loop L cs (LengthFinder (JFloat f) e c) s out = Inl TypeError"
        using t True by (subst readuntil_loop.simps) simp
      moreover have "float_needed_le L f c (length s)"
        by (rule float_more [OF fa True]) simp
      ultimately show ?thesis using False by simp
    next
      case nk: False
      have step: "readuntil_loop L cs (LengthFinder (JFloat f) e c) s out =
            readuntil_loop L cs (LengthFinder (JFloat f) e (c + int ?k)) (drop cs s) (out @ take cs s)"
        using t nk by (subst readuntil_loop.simps) simp
      have ih: "readuntil_loop L cs (LengthFinder (JFloat f) e (c + int ?k)) (drop cs s) (out @ take cs s) =
         (if drop cs s \<noteq> [] \<and> float_needed_le L f (c + int ?k) (length (drop cs s)) then Inl TypeError
          else (case e of None \<Rightarrow> Inr (([], True), [], (out @ take cs s) @ drop cs s)
                | Some m \<Rightarrow> Inl (ParseError m)))"
        by (rule less.hyps [OF l less.prems(1) fa])
      have sum: "int ?k + int (length (drop cs s)) = int (length s)"
        by (metis append_take_drop_id length_append of_nat_add)
      have same: "float_needed_le L f (c + int ?k) (length (drop cs s)) = float_needed_le L f c (length s)"
        using float_shift [OF fa, of f "c + int ?k" "length (drop cs s)"]
          float_shift [OF fa, of f c "length s"] sum
        by (simp add: add.assoc)
      have last: "drop cs s = [] \<Longrightarrow> \<not> float_needed_le L f c (length s)"
      proof -
        assume "drop cs s = []"
        then have "?k = length s" by (metis append_take_drop_id self_append_conv)
        with nk show ?thesis by simp
      qed
      show ?thesis
        unfolding step ih using same last False by (auto split: option.splits)
    qed
  qed
qed

lemma readuntil_float:
  assumes "0 < cs" "float_arithmetic L"
  shows "readuntil L cs (LengthFinder (JFloat f) e c) rem s out =
       (if float_needed_le L f c (length (rem @ s)) then Inl TypeError
        else (case e of None \<Rightarrow> Inr (([], True), [], out @ rem @ s) | Some m \<Rightarrow> Inl (ParseError m)))"
proof (cases "float_needed_le L f c (length rem)")
  case True
  have "float_needed_le L f c (length (rem @ s))"
    by (rule float_more [OF assms(2) True]) simp
  with True show ?thesis by (simp add: readuntil_def)
next
  case False
  have same: "float_needed_le L f (c + int (length rem)) (length s) =
                float_needed_le L f c (length (rem @ s))"
    using float_shift [OF assms(2), of f "c + int (length rem)" "length s"]
      float_shift [OF assms(2), of f c "length (rem @ s)"]
    by (simp add: add.assoc)
  have empty: "s = [] \<Longrightarrow> \<not> float_needed_le L f c (length (rem @ s))"
    using False by simp
  show ?thesis
    using False same empty
    by (auto simp: readuntil_def loop_float [OF assms] split: option.splits)
qed

fun proper_finder :: "'f finder \<Rightarrow> bool" where
  "proper_finder NewlineFinder = True"
| "proper_finder (LengthFinder l e c) = (proper_length l \<and> c = 0)"

lemma readuntil_not_number:
  assumes "int_length l = None" "\<forall>f. l \<noteq> JFloat f"
  shows "readuntil L cs (LengthFinder l e c) rem s out = Inl TypeError"
  using assms by (cases l) (simp_all add: readuntil_def)

lemma proper_int_length: "proper_length l \<Longrightarrow> int_length l = Some n \<Longrightarrow> 0 \<le> n"
  by (cases l) (auto split: if_splits)

lemma readuntil_position_eq:
  assumes "0 < cs" "0 < cs'" "rem @ s = rem' @ s'" "proper_finder f" and fa: "float_arithmetic L"
  shows "position (readuntil L cs f rem s out) = position (readuntil L cs' f rem' s' out)"
proof (cases f)
  case NewlineFinder
  show ?thesis
    unfolding NewlineFinder
    by (simp only: readuntil_newline_position [OF assms(1)]
        readuntil_newline_position [OF assms(2)] assms(3))
next
  case (LengthFinder l e c)
  with assms(4) have p: "proper_length l" and c: "c = 0" by simp_all
  show ?thesis
  proof (cases "int_length l")
    case None
    show ?thesis
    proof (cases "\<exists>f. l = JFloat f")
      case True
      then obtain x where x: "l = JFloat x" by blast
      have "length (rem @ s) = length (rem' @ s')" by (simp only: assms(3))
      then show ?thesis
        unfolding LengthFinder x
        by (simp only: readuntil_float [OF assms(1) fa] readuntil_float [OF assms(2) fa] assms(3))
    next
      case False
      then have nf: "\<forall>f. l \<noteq> JFloat f" by blast
      show ?thesis
        unfolding LengthFinder by (simp only: readuntil_not_number [OF None nf])
    qed
  next
    case (Some n)
    from proper_int_length [OF p Some] c have z: "0 \<le> n - c" by simp
    show ?thesis
      unfolding LengthFinder
      by (simp only: readuntil_length_position [OF assms(1) Some z]
          readuntil_length_position [OF assms(2) Some z] assms(3))
  qed
qed

text \<open>What a caller can see of the parser's position: the unread bytes and the end-of-stream
  flag; results of the methods with the parser reduced to that.\<close>

definition where_at :: "'f parser \<Rightarrow> bytes \<times> bool" where
  "where_at st = (unread st, at_eof st)"

definition headers_view ::
  "error + ('f json \<times> 'f parser) \<Rightarrow> error + ('f json \<times> bytes \<times> bool)" where
  "headers_view res = map_sum id (map_prod id where_at) res"

fun step_view :: "'f step \<Rightarrow> error option + ('f json \<times> bytes \<times> bytes \<times> bool)" where
  "step_view Stop = Inl None"
| "step_view (Raise e) = Inl (Some e)"
| "step_view (Yield h body st) = Inr (h, body, where_at st)"

lemma headers_view_decoded:
  "headers_view (decoded L hv st) = headers_view (decoded L hv st') \<longleftrightarrow>
     (\<forall>j. json_loads L hv = Loaded j \<longrightarrow> where_at st = where_at st')"
  by (auto simp: headers_view_def decoded_def split: loads_result.splits)

lemma where_at_set_position [simp]: "where_at (set_position st r s) = (fst r @ s, snd r)"
  by (simp add: where_at_def)

lemma parse_headers_view_eq:
  assumes "0 < chunk_size st" "0 < chunk_size st'" "unread st = unread st'"
  shows "headers_view (parse_headers L b st) = headers_view (parse_headers L b st')"
proof (cases "NL \<in> set (unread st)")
  case True
  from parse_headers_line [OF assms(1) True, of L b] obtain r s where
    a: "r @ s = after_line (unread st)"
       "parse_headers L b st = decoded L (line_of (unread st)) (set_position st (r, False) s)"
    by blast
  from True assms(3) have "NL \<in> set (unread st')" by simp
  from parse_headers_line [OF assms(2) this, of L b] obtain r' s' where
    b: "r' @ s' = after_line (unread st')"
       "parse_headers L b st' = decoded L (line_of (unread st')) (set_position st' (r', False) s')"
    by blast
  show ?thesis
    unfolding a(2) b(2) using a(1) b(1) assms(3) by (simp add: headers_view_decoded)
next
  case False
  with assms(3) have f': "NL \<notin> set (unread st')" by simp
  show ?thesis
    unfolding parse_headers_at_eof [OF assms(1) False] parse_headers_at_eof [OF assms(2) f']
    using assms(3) by (simp add: headers_view_decoded) (simp add: headers_view_def)
qed

lemma headers_view_InlD: "headers_view res = Inl e \<Longrightarrow> res = Inl e"
  by (cases res) (auto simp: headers_view_def)

lemma headers_view_InrD:
  "headers_view res = Inr (h, w) \<Longrightarrow> \<exists>st. res = Inr (h, st) \<and> where_at st = w"
  by (cases res) (auto simp: headers_view_def)

lemma parse_headers_chunk_size:
  "parse_headers L b st = Inr (h, st') \<Longrightarrow>
     chunk_size st' = chunk_size st \<and> envelope_headers st' = envelope_headers st"
  by (auto simp: parse_headers_def Let_def split: sum.splits if_splits loads_result.splits)

lemma read_item_chunk_size:
  "read_item L h b f st = Yield h' body st' \<Longrightarrow> chunk_size st' = chunk_size st"
  by (auto simp: read_item_def Let_def split: sum.splits if_splits)

lemma next_item_chunk_size:
  assumes "next_item L st = Yield h body st'"
  shows "chunk_size st' = chunk_size st"
proof -
  from assms obtain h1 st1 b f where
    ph: "parse_headers L True st = Inr (h1, st1)"
    and ri: "read_item L h1 b f st1 = Yield h body st'"
    by (auto simp: next_item_def split: if_splits sum.splits json.splits)
  from parse_headers_chunk_size [OF ph] read_item_chunk_size [OF ri] show ?thesis by simp
qed


lemma readuntil_related:
  assumes "0 < chunk_size st" "0 < chunk_size st'" "unread st = unread st'" "proper_finder f"
    and fa: "float_arithmetic L"
  shows "(\<exists>e. readuntil L (chunk_size st) f (remainder st) (input_stream st) out = Inl e
            \<and> readuntil L (chunk_size st') f (remainder st') (input_stream st') out = Inl e)
       \<or> (\<exists>r s r' s' eof out'.
            readuntil L (chunk_size st) f (remainder st) (input_stream st) out = Inr ((r, eof), s, out')
          \<and> readuntil L (chunk_size st') f (remainder st') (input_stream st') out = Inr ((r', eof), s', out')
          \<and> r @ s = r' @ s')"
proof -
  let ?a = "readuntil L (chunk_size st) f (remainder st) (input_stream st) out"
  let ?b = "readuntil L (chunk_size st') f (remainder st') (input_stream st') out"
  have eq: "position ?a = position ?b"
    using assms(3) by (intro readuntil_position_eq [OF assms(1,2) _ assms(4) fa]) (simp add: unread_def)
  show ?thesis
  proof (cases "position ?b")
    case (Inl e)
    from position_InlD [OF Inl] position_InlD [OF eq [unfolded Inl]] show ?thesis by blast
  next
    case (Inr p)
    obtain d eof out' where p: "p = (d, eof, out')" by (cases p) auto
    from position_InrD [OF Inr [unfolded p]] position_InrD [OF eq [unfolded Inr p]]
    show ?thesis by blast
  qed
qed

lemma read_item_view_eq:
  assumes "0 < chunk_size st" "0 < chunk_size st'" "unread st = unread st'" "proper_finder f"
    and fa: "float_arithmetic L"
  shows "step_view (read_item L h b f st) = step_view (read_item L h b f st')"
proof -
  from readuntil_related [OF assms, of "[]"]
  consider
    (err) e where
      "readuntil L (chunk_size st) f (remainder st) (input_stream st) [] = Inl e"
      "readuntil L (chunk_size st') f (remainder st') (input_stream st') [] = Inl e"
  | (ok) r s r' s' eof out' where
      "readuntil L (chunk_size st) f (remainder st) (input_stream st) [] = Inr ((r, eof), s, out')"
      "readuntil L (chunk_size st') f (remainder st') (input_stream st') [] = Inr ((r', eof), s', out')"
      "r @ s = r' @ s'"
    by blast
  then show ?thesis
  proof cases
    case err
    then show ?thesis by (simp add: read_item_def)
  next
    case ok
    let ?s1 = "set_position st (r, eof) s"
    let ?s1' = "set_position st' (r', eof) s'"
    show ?thesis
    proof (cases b)
      case False
      with ok show ?thesis by (simp add: read_item_def)
    next
      case True
      have c: "0 < chunk_size ?s1" "0 < chunk_size ?s1'" "unread ?s1 = unread ?s1'"
        using assms(1,2) ok(3) by simp_all
      have pf: "proper_finder (NewlineFinder :: 'a finder)" by simp
      from readuntil_related [OF c pf fa, of "[]"]
      consider
        (err2) e where
          "readuntil L (chunk_size ?s1) NewlineFinder (remainder ?s1) (input_stream ?s1) [] = Inl e"
          "readuntil L (chunk_size ?s1') NewlineFinder (remainder ?s1') (input_stream ?s1') [] = Inl e"
      | (ok2) r2 s2 r2' s2' eof2 out2 where
          "readuntil L (chunk_size ?s1) NewlineFinder (remainder ?s1) (input_stream ?s1) [] =
             Inr ((r2, eof2), s2, out2)"
          "readuntil L (chunk_size ?s1') NewlineFinder (remainder ?s1') (input_stream ?s1') [] =
             Inr ((r2', eof2), s2', out2)"
          "r2 @ s2 = r2' @ s2'"
        by blast
      then show ?thesis
      proof cases
        case err2
        with ok True show ?thesis by (simp add: read_item_def)
      next
        case ok2
        with ok True show ?thesis by (simp add: read_item_def)
      qed
    qed
  qed
qed

lemma select_finder_proper:
  assumes "contains_length h = Inr has" "select_finder h has = Inr f" "header_length_ok h"
  shows "proper_finder f"
proof (cases has)
  case False
  with assms(2) show ?thesis by (simp add: select_finder_def)
next
  case True
  with assms(2) obtain l where g: "getitem_length h = Inr l"
    and f: "f = LengthFinder l (Some eof_length_message) 0"
    by (auto simp: select_finder_def split: sum.splits)
  from g obtain kvs where h: "h = JObj kvs" and m: "map_of kvs ''length'' = Some l"
    by (cases h) (auto split: option.splits)
  from assms(3) h m have "proper_length l" by (simp add: header_length_ok_def)
  with f show ?thesis by simp
qed

lemma next_item_view_eq:
  assumes cs: "0 < chunk_size st" "0 < chunk_size st'"
    and w: "where_at st = where_at st'" and ok: "header_ok L st'" and fa: "float_arithmetic L"
  shows "step_view (next_item L st) = step_view (next_item L st')"
proof (cases "at_eof st'")
  case True
  with w show ?thesis by (simp add: next_item_def where_at_def)
next
  case False
  with w have ne: "\<not> at_eof st" and u: "unread st = unread st'" by (simp_all add: where_at_def)
  have eq: "headers_view (parse_headers L True st) = headers_view (parse_headers L True st')"
    by (rule parse_headers_view_eq [OF cs u])
  show ?thesis
  proof (cases "parse_headers L True st'")
    case (Inl e)
    then have "headers_view (parse_headers L True st) = Inl e"
      unfolding eq by (simp add: headers_view_def)
    from headers_view_InlD [OF this] Inl ne False show ?thesis by (simp add: next_item_def)
  next
    case (Inr p)
    obtain h s1' where p: "p = (h, s1')" by (cases p) auto
    from Inr p have ph': "parse_headers L True st' = Inr (h, s1')" by simp
    then have "headers_view (parse_headers L True st) = Inr (h, where_at s1')"
      unfolding eq by (simp add: headers_view_def)
    from headers_view_InrD [OF this] obtain s1 where
      ph: "parse_headers L True st = Inr (h, s1)" and w1: "where_at s1 = where_at s1'" by blast
    from parse_headers_chunk_size [OF ph] parse_headers_chunk_size [OF ph'] cs
    have cs1: "0 < chunk_size s1" "0 < chunk_size s1'" by simp_all
    from w1 have u1: "unread s1 = unread s1'" by (simp add: where_at_def)
    from ok False ph' have hok: "header_length_ok h" by (simp add: header_ok_def)
    show ?thesis
    proof (cases "h = JNull")
      case True
      with ph ph' ne False show ?thesis by (simp add: next_item_def)
    next
      case hn: False
      show ?thesis
      proof (cases "contains_length h")
        case (Inl e)
        with ph ph' ne False hn show ?thesis
          by (cases h) (simp_all add: next_item_def)
      next
        case has: (Inr has)
        show ?thesis
        proof (cases "select_finder h has")
          case (Inl e)
          with has ph ph' ne False hn show ?thesis
            by (cases h) (simp_all add: next_item_def)
        next
          case (Inr f)
          from select_finder_proper [OF has Inr hok] have pf: "proper_finder f" .
          from read_item_view_eq [OF cs1 u1 pf fa, of h has]
          show ?thesis using has Inr ph ph' ne False hn
            by (cases h) (simp_all add: next_item_def)
        qed
      qed
    qed
  qed
qed

lemma step_view_StopD: "step_view x = Inl None \<Longrightarrow> x = Stop"
  by (cases x) auto

lemma step_view_RaiseD: "step_view x = Inl (Some e) \<Longrightarrow> x = Raise e"
  by (cases x) auto

lemma step_view_YieldD:
  "step_view x = Inr (h, body, w) \<Longrightarrow> \<exists>st. x = Yield h body st \<and> where_at st = w"
  by (cases x) auto

lemma get_items_loop_eq:
  "0 < chunk_size st \<Longrightarrow> 0 < chunk_size st' \<Longrightarrow> where_at st = where_at st' \<Longrightarrow>
     lengths_ok L st' \<Longrightarrow> float_arithmetic L \<Longrightarrow>
     get_items_loop L st = get_items_loop L st'"
proof (induction L st' arbitrary: st rule: get_items_loop.induct)
  case (1 L st')
  from "1.prems"(4) have hok: "header_ok L st'"
    by (subst (asm) lengths_ok.simps) (simp split: if_splits)
  have eq: "step_view (next_item L st) = step_view (next_item L st')"
    by (rule next_item_view_eq [OF "1.prems"(1,2,3) hok "1.prems"(5)])
  show ?case
  proof (cases "next_item L st'")
    case Stop
    with eq have "next_item L st = Stop" by (simp add: step_view_StopD)
    with Stop show ?thesis by (simp add: get_items_loop_Stop)
  next
    case (Raise e)
    with eq have "next_item L st = Raise e" by (simp add: step_view_RaiseD)
    with Raise show ?thesis by (simp add: get_items_loop_Raise)
  next
    case (Yield h body s1')
    with eq have "step_view (next_item L st) = Inr (h, body, where_at s1')" by simp
    from step_view_YieldD [OF this] obtain s1 where
      y: "next_item L st = Yield h body s1" and w1: "where_at s1 = where_at s1'" by blast
    from next_item_chunk_size [OF y] next_item_chunk_size [OF Yield] "1.prems"(1,2)
    have cs1: "0 < chunk_size s1" "0 < chunk_size s1'" by simp_all
    from "1.prems"(4) Yield hok have l1: "lengths_ok L s1'"
      by (subst (asm) lengths_ok.simps) simp
    from "1.IH" [OF Yield cs1 w1 l1 "1.prems"(5)]
    have "get_items_loop L s1 = get_items_loop L s1'" .
    then show ?thesis
      by (subst get_items_loop.simps, subst (2) get_items_loop.simps) (simp add: y Yield)
  qed
qed


lemma where_at_envelope_headers [simp]: "where_at (st\<lparr>envelope_headers := h\<rparr>) = where_at st"
  by (simp add: where_at_def unread_def)

definition negative_length_stream :: bytes where
  \<open>negative_length_stream = ''{}'' @ NL # ''{"length":-1}'' @ NL # ''abc''\<close>

definition float_length_stream :: bytes where
  \<open>float_length_stream = ''{}'' @ NL # ''{"length":2.5}'' @ NL # ''abc''\<close>

definition two_item_stream :: bytes where
  \<open>two_item_stream = ''{}'' @ NL # ''{"length":3}'' @ NL # ''abc'' @ NL # ''{}'' @ NL # ''xyz''\<close>

text \<open>
  Claim C1, as the code has it. Take a non-empty input in which no item header read by the
  single-chunk parse has a negative integer as its \<open>length\<close>. Then for every chunk size from
  1 up to the input length, \<open>get_envelope_headers\<close> returns the same headers or raises the
  same error as with the whole input as one chunk, and \<open>get_items\<close> yields the same sequence
  of (item headers, item body) pairs and ends the same way (normally or with the same
  error). A \<open>length\<close> of any other kind is covered: a non-negative integer or a bool, a float
  (which ends in \<open>TypeError\<close> or in the end-of-stream parse error, by the number of unread
  bytes alone), and a value that is no number (\<open>TypeError\<close>).
\<close>

theorem chunking_independent:
  assumes "0 < cs" "cs \<le> length data" "item_lengths_proper L data" "float_arithmetic L"
  shows "map_sum id fst (get_envelope_headers L (StreamingEnvelopeParser data cs))
           = map_sum id fst (get_envelope_headers L (StreamingEnvelopeParser data (length data)))
       \<and> get_items_directly L (StreamingEnvelopeParser data cs)
           = get_items_directly L (StreamingEnvelopeParser data (length data))"
proof -
  let ?st = "StreamingEnvelopeParser data cs :: 'a parser"
  let ?st' = "StreamingEnvelopeParser data (length data) :: 'a parser"
  have cs: "0 < chunk_size ?st" "0 < chunk_size ?st'" using assms(1,2) by auto
  have u: "unread ?st = unread ?st'" by (simp add: unread_def)
  have eq: "headers_view (parse_headers L False ?st) = headers_view (parse_headers L False ?st')"
    by (rule parse_headers_view_eq [OF cs u])
  show ?thesis
  proof (cases "parse_headers L False ?st'")
    case (Inl e)
    then have "headers_view (parse_headers L False ?st) = Inl e"
      unfolding eq by (simp add: headers_view_def)
    from headers_view_InlD [OF this] Inl show ?thesis
      by (simp add: get_envelope_headers_def get_items_directly_def)
  next
    case (Inr p)
    obtain h s1' where p: "p = (h, s1')" by (cases p) auto
    from Inr p have ph': "parse_headers L False ?st' = Inr (h, s1')" by simp
    then have "headers_view (parse_headers L False ?st) = Inr (h, where_at s1')"
      unfolding eq by (simp add: headers_view_def)
    from headers_view_InrD [OF this] obtain s1 where
      ph: "parse_headers L False ?st = Inr (h, s1)" and w1: "where_at s1 = where_at s1'" by blast
    from parse_headers_chunk_size [OF ph] parse_headers_chunk_size [OF ph'] cs
    have cs1: "0 < chunk_size s1" "0 < chunk_size s1'" by simp_all
    show ?thesis
    proof (cases "h = JNull")
      case True
      with ph ph' show ?thesis
        by (simp add: get_envelope_headers_def get_items_directly_def)
    next
      case False
      have g: "get_envelope_headers L ?st = Inr (h, s1\<lparr>envelope_headers := h\<rparr>)"
        using ph False by (cases h) (simp_all add: get_envelope_headers_def)
      have g': "get_envelope_headers L ?st' = Inr (h, s1'\<lparr>envelope_headers := h\<rparr>)"
        using ph' False by (cases h) (simp_all add: get_envelope_headers_def)
      from assms(3) g' have l: "lengths_ok L (s1'\<lparr>envelope_headers := h\<rparr>)"
        by (simp add: item_lengths_proper_def)
      have "get_items_loop L (s1\<lparr>envelope_headers := h\<rparr>) =
              get_items_loop L (s1'\<lparr>envelope_headers := h\<rparr>)"
        using cs1 w1 l assms(4) by (intro get_items_loop_eq) simp_all
      with g g' show ?thesis by (simp add: get_items_directly_def)
    qed
  qed
qed

theorem chunking_independent_witness:
  "(0::nat) < 2 \<and> 2 \<le> length two_item_stream
   \<and> item_lengths_proper sample_lib two_item_stream
   \<and> float_arithmetic sample_lib
   \<and> get_items_directly sample_lib (StreamingEnvelopeParser two_item_stream 2)
       = get_items_directly sample_lib (StreamingEnvelopeParser two_item_stream (length two_item_stream))
   \<and> get_items_directly sample_lib (StreamingEnvelopeParser two_item_stream 2)
       = ([(JObj [(''length'', JInt 3)], ''abc''), (JObj [], ''xyz'')], None)
   \<and> 2 \<le> length float_length_stream
   \<and> item_lengths_proper sample_lib float_length_stream
   \<and> get_items_directly sample_lib (StreamingEnvelopeParser float_length_stream 2)
       = get_items_directly sample_lib
           (StreamingEnvelopeParser float_length_stream (length float_length_stream))
   \<and> get_items_directly sample_lib (StreamingEnvelopeParser float_length_stream 2)
       = ([], Some TypeError)"
proof -
  have h1: "(0::nat) < 2" by simp
  have h2: "2 \<le> length two_item_stream" by (simp add: two_item_stream_def)
  have h3: "item_lengths_proper sample_lib two_item_stream" by code_simp
  have h4: "float_arithmetic sample_lib" by (simp add: float_arithmetic_def sample_lib_def)
  have v: "get_items_directly sample_lib (StreamingEnvelopeParser two_item_stream 2)
       = ([(JObj [(''length'', JInt 3)], ''abc''), (JObj [], ''xyz'')], None)"
    by code_simp
  have f2: "2 \<le> length float_length_stream" by (simp add: float_length_stream_def)
  have f3: "item_lengths_proper sample_lib float_length_stream" by code_simp
  have fv: "get_items_directly sample_lib (StreamingEnvelopeParser float_length_stream 2)
       = ([], Some TypeError)"
    by code_simp
  from chunking_independent [OF h1 h2 h3 h4] chunking_independent [OF h1 f2 f3 h4]
    h1 h2 h3 h4 v f2 f3 fv
  show ?thesis by blast
qed

text \<open>Claim C1 as stated (every input) fails when an item header carries a negative length:
  read one byte at a time the item body is empty, read as a single chunk of 20 bytes it is
  \<open>ab\<close>.\<close>

theorem chunking_counterexample:
  \<open>length negative_length_stream = 20
   \<and> get_items_directly sample_lib (StreamingEnvelopeParser negative_length_stream 1)
       = ([(JObj [(''length'', JInt (- 1))], [])], None)
   \<and> get_items_directly sample_lib (StreamingEnvelopeParser negative_length_stream 20)
       = ([(JObj [(''length'', JInt (- 1))], ''ab'')], None)\<close>
  by code_simp



section \<open>Releases (releases/models.py)\<close>

text \<open>A \<open>Release\<close> object: \<open>is_semver\<close> and \<open>sort_epoch\<close> have no default, so they are \<open>None\<close>
  until \<open>save\<close> sets them; \<open>release_adding\<close> is Django's \<open>_state.adding\<close>, true until the object
  has been saved or when it was not loaded from the database. A stored row has both fields
  (the columns are not nullable).\<close>

record release =
  release_adding :: bool
  release_id :: nat
  release_project :: "nat option"
  version :: string
  date_released :: int
  is_semver :: "bool option"
  sort_epoch :: "int option"

record release_row =
  row_id :: nat
  row_project :: "nat option"
  row_version :: string
  row_date_released :: int
  row_is_semver :: bool
  row_sort_epoch :: int

datatype db_error = IntegrityError | DataError

text \<open>What \<open>save\<close> takes from outside the repository: \<open>Version.parse\<close> of the semver package
  (\<open>None\<close> when it raises \<open>ValueError\<close>), the database's answer to
  \<open>order_by("sort_epoch").last()\<close>, and whether the database's columns hold a row's values
  (the range of its integer column, the length of its character column).\<close>

record 'v release_env =
  Version_parse :: "string \<Rightarrow> 'v option"
  order_by_sort_epoch_last :: "release_row list \<Rightarrow> release_row option"
  columns_hold :: "release_row \<Rightarrow> bool"

definition is_valid_semver :: "'v release_env \<Rightarrow> string \<Rightarrow> bool" where
  "is_valid_semver E v = (case Version_parse E v of Some parsed \<Rightarrow> True | None \<Rightarrow> False)"

text \<open>The contract of \<open>order_by("sort_epoch").last()\<close>: no row of an empty query set, and
  otherwise one of its rows with the highest \<open>sort_epoch\<close> (which one, among several, is
  the database's choice).\<close>

definition picks_last_epoch :: "'v release_env \<Rightarrow> bool" where
  "picks_last_epoch E =
     (\<forall>rows. case order_by_sort_epoch_last E rows of
               None \<Rightarrow> rows = []
             | Some r \<Rightarrow> r \<in> set rows \<and> (\<forall>x \<in> set rows. row_sort_epoch x \<le> row_sort_epoch r))"

definition project_releases :: "nat option \<Rightarrow> release_row list \<Rightarrow> release_row list" where
  "project_releases p table = filter (\<lambda>r. row_project r = p) table"

text \<open>The body of \<open>Release.save\<close> before \<open>super().save\<close>.\<close>

definition assign_sort_epoch :: "'v release_env \<Rightarrow> release \<Rightarrow> release_row list \<Rightarrow> release" where
  "assign_sort_epoch E self table =
     (case is_semver self of
        None \<Rightarrow>
          (let semver = is_valid_semver E (version self);
               any_release_from_last_epoch =
                 order_by_sort_epoch_last E (project_releases (release_project self) table)
           in self\<lparr>is_semver := Some semver,
                   sort_epoch := Some
                     (case any_release_from_last_epoch of
                        None \<Rightarrow> 0
                      | Some r \<Rightarrow>
                          if semver = row_is_semver r then row_sort_epoch r
                          else row_sort_epoch r + 1)\<rparr>)
      | Some b \<Rightarrow> self)"

text \<open>\<open>super().save\<close>, Django's \<open>Model.save\<close> for a model whose primary key has a default: an
  object that is being added is inserted, and the insert fails when its primary key is
  stored already; any other object updates its row, or is inserted when it has none. The
  write fails when a column would be null, when the columns do not hold the values, or when
  \<open>unique_together = ("project", "version")\<close> would be violated (a null project never
  violates it).\<close>

definition unique_together_violated :: "release_row \<Rightarrow> release_row list \<Rightarrow> bool" where
  "unique_together_violated row others =
     (row_project row \<noteq> None \<and>
      list_ex (\<lambda>r. row_project r = row_project row \<and> row_version r = row_version row) others)"

definition super_save ::
  "'v release_env \<Rightarrow> release \<Rightarrow> release_row list \<Rightarrow> db_error + release_row list" where
  "super_save E self table =
     (case (is_semver self, sort_epoch self) of
        (Some semver, Some epoch) \<Rightarrow>
          (let row = \<lparr>row_id = release_id self, row_project = release_project self,
                      row_version = version self, row_date_released = date_released self,
                      row_is_semver = semver, row_sort_epoch = epoch\<rparr>;
               others = filter (\<lambda>r. row_id r \<noteq> release_id self) table;
               stored = list_ex (\<lambda>r. row_id r = release_id self) table
           in if \<not> columns_hold E row then Inl DataError
              else if unique_together_violated row others then Inl IntegrityError
              else if release_adding self
                   then (if stored then Inl IntegrityError else Inr (table @ [row]))
                   else if stored
                        then Inr (map (\<lambda>r. if row_id r = release_id self then row else r) table)
                        else Inr (table @ [row]))
      | _ \<Rightarrow> Inl IntegrityError)"

definition save :: "'v release_env \<Rightarrow> release \<Rightarrow> release_row list \<Rightarrow> db_error + (release \<times> release_row list)" where
  "save E self table =
     (let self' = assign_sort_epoch E self table
      in case super_save E self' table of
           Inl e \<Rightarrow> Inl e
         | Inr table' \<Rightarrow> Inr (self'\<lparr>release_adding := False\<rparr>, table'))"

text \<open>A database that answers with the last row, in table order, among those of highest
  \<open>sort_epoch\<close>.\<close>

fun last_of_highest :: "release_row list \<Rightarrow> release_row option" where
  "last_of_highest [] = None"
| "last_of_highest (r # rows) =
     (case last_of_highest rows of
        None \<Rightarrow> Some r
      | Some x \<Rightarrow> if row_sort_epoch x < row_sort_epoch r then Some r else Some x)"

definition sample_release_env :: "unit release_env" where
  "sample_release_env =
     \<lparr>Version_parse = (\<lambda>v. if v = ''1.0.0'' \<or> v = ''1.1.0'' then Some () else None),
      order_by_sort_epoch_last = last_of_highest,
      columns_hold = (\<lambda>r. - 2147483648 \<le> row_sort_epoch r \<and> row_sort_epoch r \<le> 2147483647
                           \<and> length (row_version r) \<le> 255)\<rparr>"

lemma last_of_highest_None: "last_of_highest rows = None \<longleftrightarrow> rows = []"
  by (induction rows) (auto split: option.splits)

lemma last_of_highest_Some:
  "last_of_highest rows = Some r \<Longrightarrow>
     r \<in> set rows \<and> (\<forall>x \<in> set rows. row_sort_epoch x \<le> row_sort_epoch r)"
proof (induction rows arbitrary: r)
  case Nil
  then show ?case by simp
next
  case (Cons a rows)
  show ?case
  proof (cases "last_of_highest rows")
    case None
    with Cons.prems last_of_highest_None [of rows] show ?thesis by simp
  next
    case (Some x)
    from Cons.IH [OF Some] Cons.prems Some show ?thesis
      by (auto split: if_splits)
  qed
qed

lemma sample_picks_last_epoch: "picks_last_epoch sample_release_env"
  unfolding picks_last_epoch_def
proof
  fix rows
  show "case order_by_sort_epoch_last sample_release_env rows of
          None \<Rightarrow> rows = []
        | Some r \<Rightarrow> r \<in> set rows \<and> (\<forall>x \<in> set rows. row_sort_epoch x \<le> row_sort_epoch r)"
    using last_of_highest_None [of rows] last_of_highest_Some [of rows]
    by (cases "last_of_highest rows") (simp_all add: sample_release_env_def)
qed

lemma super_save_row:
  assumes "super_save E x table = Inr table'" "is_semver x = Some semver" "sort_epoch x = Some epoch"
  shows "\<exists>row \<in> set table'. row_id row = release_id x \<and> row_sort_epoch row = epoch
           \<and> row_is_semver row = semver"
proof -
  let ?row = "\<lparr>row_id = release_id x, row_project = release_project x,
                row_version = version x, row_date_released = date_released x,
                row_is_semver = semver, row_sort_epoch = epoch\<rparr>"
  from assms consider
      (inserted) "table' = table @ [?row]"
    | (updated) "list_ex (\<lambda>r. row_id r = release_id x) table"
                "table' = map (\<lambda>r. if row_id r = release_id x then ?row else r) table"
    by (auto simp: super_save_def Let_def split: if_splits)
  then show ?thesis
  proof cases
    case inserted
    then show ?thesis by simp
  next
    case updated
    from updated(1) obtain r where "r \<in> set table" "row_id r = release_id x"
      by (auto simp: list_ex_iff)
    then have "?row \<in> set table'" unfolding updated(2) by force
    then show ?thesis by (intro bexI [of _ ?row]) simp_all
  qed
qed

lemma save_stored:
  "super_save E (assign_sort_epoch E self table) table = Inr table' \<Longrightarrow>
     save E self table = Inr ((assign_sort_epoch E self table)\<lparr>release_adding := False\<rparr>, table')"
  by (simp add: save_def)

lemma assign_sort_epoch_id [simp]: "release_id (assign_sort_epoch E self table) = release_id self"
  by (simp add: assign_sort_epoch_def Let_def split: option.splits)

text \<open>
  Claim C10. At a release's first save (\<open>is_semver\<close> unset) \<open>save\<close> sets \<open>is_semver\<close> to the
  version's semver validity and \<open>sort_epoch\<close> to: 0 when the project has no releases; otherwise,
  for a release \<open>r\<close> of the project holding the highest \<open>sort_epoch\<close>, that epoch when the new
  release's validity equals \<open>r\<close>'s, and that epoch plus 1 when it differs. The new epoch is
  therefore at least that of every existing release of the project, so epochs never decrease
  from one creation to the next; and when the row is stored it carries that epoch.
\<close>

theorem sort_epoch_assignment:
  assumes "picks_last_epoch E" "is_semver self = None"
  shows "\<exists>epoch.
           sort_epoch (assign_sort_epoch E self table) = Some epoch
         \<and> is_semver (assign_sort_epoch E self table) = Some (is_valid_semver E (version self))
         \<and> (if project_releases (release_project self) table = [] then epoch = 0
            else \<exists>r \<in> set (project_releases (release_project self) table).
                   (\<forall>x \<in> set (project_releases (release_project self) table).
                       row_sort_epoch x \<le> row_sort_epoch r)
                 \<and> epoch = (if is_valid_semver E (version self) = row_is_semver r
                             then row_sort_epoch r else row_sort_epoch r + 1))
         \<and> (\<forall>x \<in> set (project_releases (release_project self) table). row_sort_epoch x \<le> epoch)
         \<and> (\<forall>table'. super_save E (assign_sort_epoch E self table) table = Inr table' \<longrightarrow>
               save E self table
                 = Inr ((assign_sort_epoch E self table)\<lparr>release_adding := False\<rparr>, table')
             \<and> (\<exists>row \<in> set table'. row_id row = release_id self \<and> row_sort_epoch row = epoch
                   \<and> row_is_semver row = is_valid_semver E (version self)))"
proof -
  let ?rows = "project_releases (release_project self) table"
  let ?sv = "is_valid_semver E (version self)"
  let ?self' = "assign_sort_epoch E self table"
  from assms(1) have c: "case order_by_sort_epoch_last E ?rows of
               None \<Rightarrow> ?rows = []
             | Some r \<Rightarrow> r \<in> set ?rows \<and> (\<forall>x \<in> set ?rows. row_sort_epoch x \<le> row_sort_epoch r)"
    unfolding picks_last_epoch_def by blast
  have stored: "\<forall>table'. super_save E ?self' table = Inr table' \<longrightarrow>
               save E self table = Inr (?self'\<lparr>release_adding := False\<rparr>, table')
             \<and> (\<exists>row \<in> set table'. row_id row = release_id self \<and> row_sort_epoch row = epoch
                   \<and> row_is_semver row = ?sv)"
    if "sort_epoch ?self' = Some epoch" "is_semver ?self' = Some ?sv" for epoch
    using save_stored [of E self table] super_save_row [of E ?self' table _ ?sv epoch] that
    by auto
  show ?thesis
  proof (cases "order_by_sort_epoch_last E ?rows")
    case None
    with c have e: "?rows = []" by simp
    have a: "sort_epoch ?self' = Some 0" "is_semver ?self' = Some ?sv"
      using assms(2) None by (simp_all add: assign_sort_epoch_def Let_def)
    have mid: "if ?rows = [] then (0::int) = 0
               else \<exists>r \<in> set ?rows. (\<forall>x \<in> set ?rows. row_sort_epoch x \<le> row_sort_epoch r)
                 \<and> 0 = (if ?sv = row_is_semver r then row_sort_epoch r else row_sort_epoch r + 1)"
      using e by simp
    have le: "\<forall>x \<in> set ?rows. row_sort_epoch x \<le> 0" using e by simp
    show ?thesis
      by (rule exI [of _ 0]) (intro conjI a mid le stored [OF a])
  next
    case (Some r)
    with c have r: "r \<in> set ?rows" "\<forall>x \<in> set ?rows. row_sort_epoch x \<le> row_sort_epoch r"
      by simp_all
    let ?e = "if ?sv = row_is_semver r then row_sort_epoch r else row_sort_epoch r + 1"
    have a: "sort_epoch ?self' = Some ?e" "is_semver ?self' = Some ?sv"
      using assms(2) Some by (simp_all add: assign_sort_epoch_def Let_def)
    have ne: "?rows \<noteq> []" using r(1) by auto
    have le: "\<forall>x \<in> set ?rows. row_sort_epoch x \<le> ?e" using r(2) by fastforce
    have pick: "\<exists>r \<in> set ?rows. (\<forall>x \<in> set ?rows. row_sort_epoch x \<le> row_sort_epoch r)
                 \<and> ?e = (if ?sv = row_is_semver r then row_sort_epoch r else row_sort_epoch r + 1)"
      using r by blast
    have mid: "if ?rows = [] then ?e = 0
               else \<exists>r \<in> set ?rows. (\<forall>x \<in> set ?rows. row_sort_epoch x \<le> row_sort_epoch r)
                 \<and> ?e = (if ?sv = row_is_semver r then row_sort_epoch r else row_sort_epoch r + 1)"
      unfolding if_not_P [OF ne] by (rule pick)
    show ?thesis
      by (rule exI [of _ ?e]) (intro conjI a mid le stored [OF a])
  qed
qed


definition sample_releases :: "release_row list" where
  "sample_releases =
     [\<lparr>row_id = 1, row_project = Some 1, row_version = ''1.0.0'', row_date_released = 10,
       row_is_semver = True, row_sort_epoch = 0\<rparr>]"

definition sample_release :: release where
  "sample_release =
     \<lparr>release_adding = True, release_id = 2, release_project = Some 1, version = ''nightly'',
      date_released = 20,
      is_semver = None, sort_epoch = None\<rparr>"

theorem sort_epoch_assignment_witness:
  "picks_last_epoch sample_release_env
   \<and> is_semver sample_release = None
   \<and> project_releases (release_project sample_release) sample_releases \<noteq> []
   \<and> sort_epoch (assign_sort_epoch sample_release_env sample_release sample_releases) = Some 1
   \<and> (\<exists>table'. super_save sample_release_env
                   (assign_sort_epoch sample_release_env sample_release sample_releases)
                   sample_releases = Inr table')
   \<and> (\<exists>epoch. sort_epoch (assign_sort_epoch sample_release_env sample_release sample_releases)
                  = Some epoch
          \<and> (\<forall>x \<in> set (project_releases (release_project sample_release) sample_releases).
                row_sort_epoch x \<le> epoch))"
proof -
  have h1: "picks_last_epoch sample_release_env" by (rule sample_picks_last_epoch)
  have h2: "is_semver sample_release = None" by (simp add: sample_release_def)
  have h3: "project_releases (release_project sample_release) sample_releases \<noteq> []"
    by (simp add: project_releases_def sample_release_def sample_releases_def)
  have h4: "sort_epoch (assign_sort_epoch sample_release_env sample_release sample_releases) = Some 1"
    by (simp add: assign_sort_epoch_def is_valid_semver_def sample_release_env_def
        sample_release_def sample_releases_def project_releases_def)
  have h5: "\<exists>table'. super_save sample_release_env
                   (assign_sort_epoch sample_release_env sample_release sample_releases)
                   sample_releases = Inr table'"
    by (simp add: super_save_def unique_together_violated_def assign_sort_epoch_def
        is_valid_semver_def sample_release_env_def sample_release_def sample_releases_def
        project_releases_def)
  from sort_epoch_assignment [OF h1 h2, of sample_releases]
  have "\<exists>epoch. sort_epoch (assign_sort_epoch sample_release_env sample_release sample_releases)
                  = Some epoch
          \<and> (\<forall>x \<in> set (project_releases (release_project sample_release) sample_releases).
                row_sort_epoch x \<le> epoch)"
    by blast
  with h1 h2 h3 h4 h5 show ?thesis by blast
qed



section \<open>Digestion (ingest/views.py)\<close>

subsection \<open>Stored objects\<close>

type_synonym timestamp = int

type_synonym fields = "(string \<times> string) list"

record project =
  project_id :: nat
  digested_event_count :: int
  next_quota_check :: int
  quota_exceeded_until :: "timestamp option"
  alert_on_new_issue :: bool
  alert_on_regression :: bool

record issue =
  issue_id :: nat
  issue_project_id :: nat
  digest_order :: int
  first_seen :: timestamp
  last_seen :: timestamp
  issue_digested_event_count :: int
  next_unmute_check :: int
  is_muted :: bool
  unmute_after :: "timestamp option"
  events_at :: string
  issue_fields :: fields

record grouping =
  grouping_project_id :: nat
  grouping_key :: string
  grouping_issue_id :: nat

record 'a event =
  event_id :: string
  event_project_id :: nat
  event_issue_id :: nat
  event_release :: string
  never_evict :: bool
  event_digest_order :: int
  event_stored_event_count :: int
  event_fields :: fields
  event_data :: 'a

datatype TurningPointKind = FIRST_SEEN | REGRESSED | UNMUTED

record turning_point =
  tp_issue_id :: nat
  tp_triggering_event :: string
  tp_timestamp :: timestamp
  tp_kind :: TurningPointKind

datatype alert = send_new_issue_alert nat | send_regression_alert nat

text \<open>The database: one table per model, and the calls queued by \<open>delay_on_commit\<close>.\<close>

record 'a db =
  projects :: "project list"
  issues :: "issue list"
  groupings :: "grouping list"
  events :: "'a event list"
  turning_points :: "turning_point list"
  releases :: "release_row list"
  on_commit :: "alert list"

record event_metadata =
  md_project_id :: nat
  md_timestamp :: string
  md_debug_info :: string

datatype digest_error =
    ViolatedExpectation string
  | ValidationError string string
  | DoesNotExist
  | AttributeError

subsection \<open>Collaborators\<close>

text \<open>A threshold is \<open>(period, nr_of_periods, gte_threshold, metadata)\<close>; \<open>check_for_thresholds\<close>
  answers with one \<open>(state, below_from, check_after, metadata)\<close> per threshold. The unmute
  metadata is \<open>{"mute_for": {"unmute_after": t}}\<close> or \<open>{"mute_until": vbc_dict}\<close>.\<close>

type_synonym 'm threshold = "string \<times> int \<times> int \<times> 'm option"

type_synonym 'm threshold_state = "bool \<times> timestamp \<times> int \<times> 'm option"

datatype 'm unmute_metadata = mute_for "timestamp option" | mute_until "'m option"

text \<open>Everything \<open>digest_event\<close> calls that is not in ingest/views.py is a parameter: settings,
  the threshold evaluator (its last argument is \<open>add_for_current\<close>, \<open>None\<close> when it is not
  passed), the functions of issues.utils, events.retention, releases.models,
  issues.regressions and \<open>IssueStateManager\<close>, the identifier and release an \<open>Event\<close> takes from
  the event data, and what deleting an \<open>Issue\<close> does to the rows that refer to it.\<close>

record ('a, 'm) digest_env =
  parse_timestamp :: "string \<Rightarrow> timestamp"
  MAX_EVENTS_PER_PROJECT_PER_5_MINUTES :: int
  MAX_EVENTS_PER_PROJECT_PER_HOUR :: int
  check_for_thresholds ::
    "'a event list \<Rightarrow> timestamp \<Rightarrow> 'm threshold list \<Rightarrow> int option \<Rightarrow> 'm threshold_state list"
  get_denormalized_fields_for_data :: "'a \<Rightarrow> fields"
  get_type_and_value_for_data :: "'a \<Rightarrow> string \<times> string"
  get_issue_grouper_for_data :: "'a \<Rightarrow> string \<Rightarrow> string \<Rightarrow> string"
  should_evict :: "project \<Rightarrow> timestamp \<Rightarrow> int \<Rightarrow> bool"
  evict_for_max_events :: "project \<Rightarrow> timestamp \<Rightarrow> int \<Rightarrow> 'a db \<Rightarrow> 'a db"
  event_id_of :: "'a \<Rightarrow> string"
  release_of :: "'a \<Rightarrow> string"
  create_release_if_needed :: "project \<Rightarrow> string \<Rightarrow> 'a event \<Rightarrow> 'a db \<Rightarrow> release_row \<times> 'a db"
  issue_is_regression :: "issue \<Rightarrow> string \<Rightarrow> 'a db \<Rightarrow> bool"
  reopen :: "issue \<Rightarrow> issue"
  unmute :: "issue \<Rightarrow> 'a event \<Rightarrow> 'm unmute_metadata \<Rightarrow> 'a db \<Rightarrow> issue \<times> 'a event \<times> 'a db"
  get_unmute_thresholds :: "issue \<Rightarrow> 'm threshold list"
  on_issue_delete :: "nat \<Rightarrow> 'a db \<Rightarrow> 'a db"

subsection \<open>Python and ORM operations\<close>

text \<open>\<open>max(xs, default=None)\<close> and \<open>min(xs, default=d)\<close>.\<close>

fun py_max :: "int list \<Rightarrow> int option" where
  "py_max [] = None"
| "py_max (x # xs) = Some (fold max xs x)"

fun py_min :: "int list \<Rightarrow> int \<Rightarrow> int" where
  "py_min [] d = d"
| "py_min (x # xs) d = fold min xs x"

definition fresh_id :: "nat list \<Rightarrow> nat" where
  "fresh_id ids = Suc (fold max ids 0)"

definition save_project :: "project \<Rightarrow> 'a db \<Rightarrow> 'a db" where
  "save_project p d =
     d\<lparr>projects := filter (\<lambda>x. project_id x \<noteq> project_id p) (projects d) @ [p]\<rparr>"

definition save_issue :: "issue \<Rightarrow> 'a db \<Rightarrow> 'a db" where
  "save_issue i d = d\<lparr>issues := filter (\<lambda>x. issue_id x \<noteq> issue_id i) (issues d) @ [i]\<rparr>"

definition save_event :: "'a event \<Rightarrow> 'a db \<Rightarrow> 'a db" where
  "save_event e d =
     d\<lparr>events := filter (\<lambda>x. \<not> (event_project_id x = event_project_id e \<and> event_id x = event_id e))
                     (events d) @ [e]\<rparr>"

text \<open>\<open>issue.delete()\<close> removes the issue's row; \<open>on_issue_delete\<close> is what the storage layer
  does to the other tables' rows that refer to it.\<close>

definition delete_issue :: "('a, 'm) digest_env \<Rightarrow> issue \<Rightarrow> 'a db \<Rightarrow> 'a db" where
  "delete_issue env i d =
     (on_issue_delete env (issue_id i) d)
       \<lparr>issues := filter (\<lambda>x. issue_id x \<noteq> issue_id i) (issues d)\<rparr>"

definition create_turning_point ::
  "issue \<Rightarrow> 'a event \<Rightarrow> timestamp \<Rightarrow> TurningPointKind \<Rightarrow> 'a db \<Rightarrow> 'a db" where
  "create_turning_point i e ts kind d =
     d\<lparr>turning_points := turning_points d @
          [\<lparr>tp_issue_id = issue_id i, tp_triggering_event = event_id e,
            tp_timestamp = ts, tp_kind = kind\<rparr>]\<rparr>"

definition delay_on_commit :: "alert \<Rightarrow> 'a db \<Rightarrow> 'a db" where
  "delay_on_commit a d = d\<lparr>on_commit := on_commit d @ [a]\<rparr>"

text \<open>
  Modelled from the spec: \<open>Event.from_ingested\<close> (events/models.py is not among the sources).
  Spec 4.4 step 6: "create the Event keyed by its caller-supplied identifier; if an Event with
  that identifier already exists, no new Event is created." It returns the event and whether
  it was created.
\<close>

definition from_ingested ::
  "('a, 'm) digest_env \<Rightarrow> event_metadata \<Rightarrow> int \<Rightarrow> int \<Rightarrow> issue \<Rightarrow> 'a \<Rightarrow> fields \<Rightarrow> 'a db
     \<Rightarrow> ('a event option \<times> bool) \<times> 'a db" where
  "from_ingested env md digest_order_arg stored_event_count i data denormalized_fields d =
     (if list_ex (\<lambda>e. event_id e = event_id_of env data) (events d)
      then ((None, False), d)
      else (let e = \<lparr>event_id = event_id_of env data, event_project_id = md_project_id md,
                      event_issue_id = issue_id i, event_release = release_of env data,
                      never_evict = False, event_digest_order = digest_order_arg,
                      event_stored_event_count = stored_event_count,
                      event_fields = denormalized_fields, event_data = data\<rparr>
            in ((Some e, True), d\<lparr>events := events d @ [e]\<rparr>)))"

subsection \<open>count_project_periods_and_act_on_it\<close>

definition quota_thresholds :: "('a, 'm) digest_env \<Rightarrow> 'm threshold list" where
  "quota_thresholds env =
     [(''minute'', 5, MAX_EVENTS_PER_PROJECT_PER_5_MINUTES env, None),
      (''minute'', 60, MAX_EVENTS_PER_PROJECT_PER_HOUR env, None)]"

definition over_quota :: "project \<Rightarrow> timestamp \<Rightarrow> bool" where
  "over_quota p now = (case quota_exceeded_until p of None \<Rightarrow> False | Some until \<Rightarrow> now < until)"

definition count_project_periods_and_act_on_it ::
  "('a, 'm) digest_env \<Rightarrow> project \<Rightarrow> timestamp \<Rightarrow> 'a db \<Rightarrow> bool \<times> project \<times> 'a db" where
  "count_project_periods_and_act_on_it env p now d =
     (let thresholds = quota_thresholds env in
      if over_quota p now then (False, p, d)
      else
        (let p1 = p\<lparr>digested_event_count := digested_event_count p + 1\<rparr>;
             p2 =
               (if digested_event_count p1 \<ge> next_quota_check p1
                then
                  (let states = check_for_thresholds env
                                  (filter (\<lambda>e. event_project_id e = project_id p) (events d))
                                  now thresholds (Some 1);
                       until = py_max (map (\<lambda>(state, below_from, check_after, m). below_from)
                                        (filter (\<lambda>(state, below_from, check_after, m). state) states));
                       check_again_after =
                         max 1 (py_min (map (\<lambda>(state, below_from, check_after, m). check_after)
                                          states) 1)
                   in p1\<lparr>quota_exceeded_until := until,
                         next_quota_check := digested_event_count p1 + check_again_after\<rparr>)
                else p1)
         in (True, p2, save_project p2 d)))"

subsection \<open>count_issue_periods_and_act_on_it\<close>

text \<open>The \<open>for\<close> loop over the states: untriggered states are skipped, the first triggered one
  unmutes, and the \<open>break\<close> ends the loop.\<close>

fun unmute_first_triggered ::
  "('a, 'm) digest_env \<Rightarrow> issue \<Rightarrow> 'a event \<Rightarrow> 'm threshold_state list \<Rightarrow> 'a db
     \<Rightarrow> issue \<times> 'a event \<times> 'a db" where
  "unmute_first_triggered env i e [] d = (i, e, d)"
| "unmute_first_triggered env i e ((state, until, check_after, vbc_dict) # states) d =
     (if \<not> state then unmute_first_triggered env i e states d
      else unmute env i e (mute_until vbc_dict) d)"

definition count_issue_periods_and_act_on_it ::
  "('a, 'm) digest_env \<Rightarrow> issue \<Rightarrow> 'a event \<Rightarrow> timestamp \<Rightarrow> 'a db \<Rightarrow> issue \<times> 'a event \<times> 'a db" where
  "count_issue_periods_and_act_on_it env i e ts d =
     (let thresholds = get_unmute_thresholds env i in
      if thresholds \<noteq> [] \<and> issue_digested_event_count i \<ge> next_unmute_check i
      then
        (let states = check_for_thresholds env
                        (filter (\<lambda>x. event_issue_id x = issue_id i) (events d))
                        ts thresholds None;
             check_again_after =
               max 1 (py_min (map (\<lambda>(state, below_from, check_after, m). check_after) states) 1);
             i1 = i\<lparr>next_unmute_check := issue_digested_event_count i + check_again_after\<rparr>
         in unmute_first_triggered env i1 e states d)
      else (i, e, d))"


subsection \<open>digest_event\<close>

text \<open>\<open>d[k] = v\<close> on a dict.\<close>

definition dict_set :: "string \<Rightarrow> string \<Rightarrow> fields \<Rightarrow> fields" where
  "dict_set k v d =
     (if list_ex (\<lambda>(k', v'). k' = k) d
      then map (\<lambda>(k', v'). if k' = k then (k, v) else (k', v')) d
      else d @ [(k, v)])"

definition denormalized_fields_of :: "('a, 'm) digest_env \<Rightarrow> 'a \<Rightarrow> fields" where
  "denormalized_fields_of env data =
     (case get_type_and_value_for_data env data of
        (calculated_type, calculated_value) \<Rightarrow>
          dict_set ''calculated_value'' calculated_value
            (dict_set ''calculated_type'' calculated_type
               (get_denormalized_fields_for_data env data)))"

definition grouping_key_of :: "('a, 'm) digest_env \<Rightarrow> 'a \<Rightarrow> string" where
  "grouping_key_of env data =
     (case get_type_and_value_for_data env data of
        (calculated_type, calculated_value) \<Rightarrow>
          get_issue_grouper_for_data env data calculated_type calculated_value)"

text \<open>Lines 145 to 177: the issue of the event's grouping, created with its grouping when the
  grouping key is new in the project. The result says whether the issue was created.\<close>

definition issue_for_grouping ::
  "event_metadata \<Rightarrow> timestamp \<Rightarrow> fields \<Rightarrow> string \<Rightarrow> 'a db \<Rightarrow> digest_error + (issue \<times> bool \<times> 'a db)" where
  "issue_for_grouping md ts denormalized_fields key d =
     (if \<not> list_ex (\<lambda>g. grouping_project_id g = md_project_id md \<and> grouping_key g = key)
              (groupings d)
      then
        (let max_current = py_max (map digest_order
                             (filter (\<lambda>i. issue_project_id i = md_project_id md) (issues d)));
             issue_digest_order = (case max_current of Some m \<Rightarrow> m + 1 | None \<Rightarrow> 1);
             i = \<lparr>issue_id = fresh_id (map issue_id (issues d)),
                  issue_project_id = md_project_id md,
                  digest_order = issue_digest_order,
                  first_seen = ts, last_seen = ts,
                  issue_digested_event_count = 1,
                  next_unmute_check = 0, is_muted = False, unmute_after = None, events_at = [],
                  issue_fields = denormalized_fields\<rparr>;
             g = \<lparr>grouping_project_id = md_project_id md, grouping_key = key,
                  grouping_issue_id = issue_id i\<rparr>
         in Inr (i, True, d\<lparr>issues := issues d @ [i], groupings := groupings d @ [g]\<rparr>))
      else
        (case find (\<lambda>g. grouping_project_id g = md_project_id md \<and> grouping_key g = key)
                (groupings d) of
           None \<Rightarrow> Inl DoesNotExist
         | Some g \<Rightarrow>
             (case find (\<lambda>i. issue_id i = grouping_issue_id g) (issues d) of
                None \<Rightarrow> Inl DoesNotExist
              | Some i \<Rightarrow>
                  Inr (i\<lparr>last_seen := ts,
                         issue_digested_event_count := issue_digested_event_count i + 1\<rparr>,
                       False, d))))"

definition stored_event_count :: "('a event \<Rightarrow> bool) \<Rightarrow> 'a db \<Rightarrow> int" where
  "stored_event_count of_owner d = int (length (filter of_owner (events d))) + 1"

definition evict_if_needed :: "('a, 'm) digest_env \<Rightarrow> project \<Rightarrow> timestamp \<Rightarrow> 'a db \<Rightarrow> 'a db" where
  "evict_if_needed env p ts d =
     (let project_stored_event_count = stored_event_count (\<lambda>e. event_project_id e = project_id p) d
      in if should_evict env p ts project_stored_event_count
         then evict_for_max_events env p ts project_stored_event_count d
         else d)"

text \<open>Lines 220 to 273: what follows the creation of the event.\<close>

definition first_seen_or_regressed ::
  "('a, 'm) digest_env \<Rightarrow> project \<Rightarrow> timestamp \<Rightarrow> issue \<Rightarrow> bool \<Rightarrow> 'a event \<Rightarrow> 'a db
     \<Rightarrow> issue \<times> 'a event \<times> 'a db" where
  "first_seen_or_regressed env p ts i issue_created e d =
     (if issue_created
      then
        (let d1 = create_turning_point i e ts FIRST_SEEN d;
             e1 = e\<lparr>never_evict := True\<rparr>
         in (i, e1, if alert_on_new_issue p then delay_on_commit (send_new_issue_alert (issue_id i)) d1
                    else d1))
      else
        (case (if issue_is_regression env i (event_release e) d
               then
                 (let d1 = create_turning_point i e ts REGRESSED d;
                      e1 = e\<lparr>never_evict := True\<rparr>;
                      d2 = (if alert_on_regression p
                            then delay_on_commit (send_regression_alert (issue_id i)) d1 else d1)
                  in (reopen env i, e1, d2))
               else (i, e, d)) of
           (i1, e1, d1) \<Rightarrow>
             if is_muted i1 \<and> (case unmute_after i1 of None \<Rightarrow> False | Some t \<Rightarrow> ts > t)
             then unmute env i1 e1 (mute_for (unmute_after i1)) d1
             else (i1, e1, d1)))"

definition after_event_created ::
  "('a, 'm) digest_env \<Rightarrow> project \<Rightarrow> timestamp \<Rightarrow> issue \<Rightarrow> bool \<Rightarrow> 'a event \<Rightarrow> 'a db \<Rightarrow> 'a db" where
  "after_event_created env p ts i issue_created e d =
     (case create_release_if_needed env p (event_release e) e d of
        (release, d1) \<Rightarrow>
          (case first_seen_or_regressed env p ts i issue_created e d1 of
             (i1, e1, d2) \<Rightarrow>
               (let d3 = (if never_evict e1 then save_event e1 d2 else d2);
                    i2 = (if \<not> sublist (row_version release @ [NL]) (events_at i1)
                          then i1\<lparr>events_at := events_at i1 @ row_version release @ [NL]\<rparr>
                          else i1)
                in case count_issue_periods_and_act_on_it env i2 e1 ts d3 of
                     (i3, e3, d4) \<Rightarrow> save_issue i3 d4)))"

text \<open>The body of \<open>digest_event\<close> for a given project object. It returns what the call returns
  or raises, the project object, and the database as the body leaves it.\<close>

definition digest_event_body ::
  "('a, 'm) digest_env \<Rightarrow> event_metadata \<Rightarrow> 'a \<Rightarrow> project \<Rightarrow> 'a db
     \<Rightarrow> (digest_error + unit) \<times> project \<times> 'a db" where
  "digest_event_body env md data p d =
     (let ts = parse_timestamp env (md_timestamp md) in
      case count_project_periods_and_act_on_it env p ts d of
        (proceed, p1, d1) \<Rightarrow>
          if \<not> proceed then (Inr (), p1, d1)
          else
            (let denormalized_fields = denormalized_fields_of env data;
                 key = grouping_key_of env data
             in case issue_for_grouping md ts denormalized_fields key d1 of
                  Inl err \<Rightarrow> (Inl err, p1, d1)
                | Inr (i, issue_created, d2) \<Rightarrow>
                    (let issue_stored_event_count =
                           stored_event_count (\<lambda>e. event_issue_id e = issue_id i) d2;
                         d3 = evict_if_needed env p1 ts d2
                     in case from_ingested env md (issue_digested_event_count i)
                               issue_stored_event_count i data denormalized_fields d3 of
                          ((ev, event_created), d4) \<Rightarrow>
                            if \<not> event_created
                            then
                              (if issue_created
                               then (Inl (ViolatedExpectation ''no event created, but issue created''),
                                     p1, delete_issue env i d4)
                               else (Inl (ValidationError ''Event already exists''
                                            ''event_already_exists''), p1, d4))
                            else
                              (case ev of
                                 None \<Rightarrow> (Inl AttributeError, p1, d4)
                               | Some e \<Rightarrow>
                                   (Inr (), p1,
                                    after_event_created env p1 ts i issue_created e d4)))))"

text \<open>
  Modelled from the spec: the decorator \<open>immediate_atomic\<close> (bugsink/transaction.py is not among
  the sources). Spec 4.4: "any step failing inside the transaction rolls back all mutations".
  The database is restored when the body raises; objects in memory keep their changes.
\<close>

definition immediate_atomic ::
  "('a db \<Rightarrow> (digest_error + unit) \<times> 'p \<times> 'a db) \<Rightarrow> 'a db \<Rightarrow> (digest_error + unit) \<times> 'p \<times> 'a db" where
  "immediate_atomic body d =
     (case body d of
        (Inl err, p, d') \<Rightarrow> (Inl err, p, d)
      | (Inr u, p, d') \<Rightarrow> (Inr u, p, d'))"

definition digest_event ::
  "('a, 'm) digest_env \<Rightarrow> event_metadata \<Rightarrow> 'a \<Rightarrow> project option \<Rightarrow> 'a db
     \<Rightarrow> (digest_error + unit) \<times> project option \<times> 'a db" where
  "digest_event env md data project d =
     immediate_atomic
       (\<lambda>d. case (case project of
                    None \<Rightarrow> find (\<lambda>p. project_id p = md_project_id md) (projects d)
                  | Some p \<Rightarrow> Some p) of
               None \<Rightarrow> (Inl DoesNotExist, None, d)
             | Some p \<Rightarrow>
                 (case digest_event_body env md data p d of
                    (res, p', d') \<Rightarrow> (res, Some p', d')))
       d"



subsection \<open>Sample project, issue and database\<close>

definition sample_digest_env :: "(string \<times> string, string) digest_env" where
  "sample_digest_env =
     \<lparr>parse_timestamp = (\<lambda>s. int (length s)),
      MAX_EVENTS_PER_PROJECT_PER_5_MINUTES = 3,
      MAX_EVENTS_PER_PROJECT_PER_HOUR = 10,
      check_for_thresholds =
        (\<lambda>evs now thresholds add.
           map (\<lambda>(period, n, limit, m).
                  (limit \<le> int (length evs) + (case add of None \<Rightarrow> 0 | Some k \<Rightarrow> k),
                   now + n, max 1 (limit - int (length evs)), m))
               thresholds),
      get_denormalized_fields_for_data = (\<lambda>data. []),
      get_type_and_value_for_data = (\<lambda>data. (''Error'', snd data)),
      get_issue_grouper_for_data = (\<lambda>data t v. v),
      should_evict = (\<lambda>p ts n. False),
      evict_for_max_events = (\<lambda>p ts n d. d),
      event_id_of = fst,
      release_of = (\<lambda>data. ''1.0.0''),
      create_release_if_needed =
        (\<lambda>p v e d. (\<lparr>row_id = 1, row_project = Some (project_id p), row_version = v,
                        row_date_released = 0, row_is_semver = True, row_sort_epoch = 0\<rparr>, d)),
      issue_is_regression = (\<lambda>i v d. False),
      reopen = (\<lambda>i. i),
      unmute = (\<lambda>i e m d. (i\<lparr>is_muted := False, unmute_after := None\<rparr>,
                            e\<lparr>never_evict := True\<rparr>, d)),
      get_unmute_thresholds =
        (\<lambda>i. if is_muted i
             then [(''day'', 1, 1, Some ''first''), (''day'', 7, 1, Some ''second'')] else []),
      on_issue_delete =
        (\<lambda>n d. d\<lparr>groupings := filter (\<lambda>g. grouping_issue_id g \<noteq> n) (groupings d)\<rparr>)\<rparr>"

definition sample_project :: project where
  "sample_project =
     \<lparr>project_id = 1, digested_event_count = 0, next_quota_check = 1,
      quota_exceeded_until = None, alert_on_new_issue = True, alert_on_regression = True\<rparr>"

definition sample_issue :: issue where
  "sample_issue =
     \<lparr>issue_id = 1, issue_project_id = 1, digest_order = 1, first_seen = 1, last_seen = 1,
      issue_digested_event_count = 5, next_unmute_check = 0, is_muted = True,
      unmute_after = None, events_at = [], issue_fields = []\<rparr>"

definition sample_event :: "(string \<times> string) event" where
  "sample_event =
     \<lparr>event_id = ''e1'', event_project_id = 1, event_issue_id = 1, event_release = ''1.0.0'',
      never_evict = False, event_digest_order = 1, event_stored_event_count = 1,
      event_fields = [], event_data = (''e1'', ''boom'')\<rparr>"

definition sample_db :: "(string \<times> string) db" where
  "sample_db =
     \<lparr>projects = [sample_project], issues = [sample_issue],
      groupings = [\<lparr>grouping_project_id = 1, grouping_key = ''boom'', grouping_issue_id = 1\<rparr>],
      events = [sample_event], turning_points = [], releases = [], on_commit = []\<rparr>"

definition sample_metadata :: event_metadata where
  "sample_metadata = \<lparr>md_project_id = 1, md_timestamp = ''12345'', md_debug_info = []\<rparr>"

subsection \<open>The quota gate\<close>

lemma py_max_Max: "py_max xs = (if xs = [] then None else Some (Max (set xs)))"
  by (cases xs) (simp_all add: Max.set_eq_fold [symmetric])

lemma py_min_Min: "py_min xs d = (if xs = [] then d else Min (set xs))"
  by (cases xs) (simp_all add: Min.set_eq_fold [symmetric])

text \<open>
  Claim C6. When the project's \<open>quota_exceeded_until\<close> is set and the event's timestamp is
  before it, \<open>count_project_periods_and_act_on_it\<close> answers \<open>False\<close> and \<open>digest_event\<close> returns
  at once: the database (events, issues, groupings, turning points, releases, queued alerts,
  the stored project) and the project object, with its \<open>digested_event_count\<close>,
  \<open>next_quota_check\<close> and \<open>quota_exceeded_until\<close>, are exactly as before, whether the project
  was passed in or is looked up.
\<close>

theorem quota_gate:
  assumes "quota_exceeded_until p = Some until" "parse_timestamp env (md_timestamp md) < until"
  shows "count_project_periods_and_act_on_it env p (parse_timestamp env (md_timestamp md)) d
           = (False, p, d)
       \<and> digest_event_body env md data p d = (Inr (), p, d)
       \<and> digest_event env md data (Some p) d = (Inr (), Some p, d)
       \<and> (find (\<lambda>x. project_id x = md_project_id md) (projects d) = Some p \<longrightarrow>
            digest_event env md data None d = (Inr (), Some p, d))"
proof -
  have o: "over_quota p (parse_timestamp env (md_timestamp md))"
    using assms by (simp add: over_quota_def)
  have c: "count_project_periods_and_act_on_it env p (parse_timestamp env (md_timestamp md)) d
           = (False, p, d)"
    using o by (simp add: count_project_periods_and_act_on_it_def)
  have b: "digest_event_body env md data p d = (Inr (), p, d)"
    by (simp add: digest_event_body_def c)
  show ?thesis
    using c b by (simp add: digest_event_def immediate_atomic_def)
qed

subsection \<open>Quota re-evaluation\<close>

text \<open>The window boundaries of the triggered thresholds and the recheck distances of all
  thresholds, as sets.\<close>

definition triggered_until :: "'m threshold_state list \<Rightarrow> timestamp set" where
  "triggered_until states = {below_from. \<exists>check_after m. (True, below_from, check_after, m) \<in> set states}"

definition recheck_distances :: "'m threshold_state list \<Rightarrow> int set" where
  "recheck_distances states = {check_after. \<exists>state below_from m. (state, below_from, check_after, m) \<in> set states}"

lemma triggered_until_set:
  "set (map (\<lambda>(state, below_from, check_after, m). below_from)
          (filter (\<lambda>(state, below_from, check_after, m). state) states)) = triggered_until states"
  by (force simp: triggered_until_def)

lemma recheck_distances_set:
  "set (map (\<lambda>(state, below_from, check_after, m). check_after) states) = recheck_distances states"
  by (force simp: recheck_distances_def)

lemma triggered_until_empty:
  "filter (\<lambda>(state, below_from, check_after, m). state) states = [] \<longleftrightarrow> triggered_until states = {}"
  using triggered_until_set [of states] by (metis map_is_Nil_conv set_empty)

lemma recheck_distances_empty: "states = [] \<longleftrightarrow> recheck_distances states = {}"
  using recheck_distances_set [of states] by (metis map_is_Nil_conv set_empty)


lemma py_max_triggered:
  "py_max (map (\<lambda>(state, below_from, check_after, m). below_from)
            (filter (\<lambda>(state, below_from, check_after, m). state) states))
     = (if triggered_until states = {} then None else Some (Max (triggered_until states)))"
  unfolding py_max_Max triggered_until_set
  using triggered_until_empty [of states] by simp

lemma py_min_recheck:
  "py_min (map (\<lambda>(state, below_from, check_after, m). check_after) states) d
     = (if recheck_distances states = {} then d else Min (recheck_distances states))"
  unfolding py_min_Min recheck_distances_set
  using recheck_distances_empty [of states] by simp

text \<open>
  Claim C7. For a project that is not over quota the counter is incremented to \<open>c\<close>. If \<open>c\<close>
  has reached \<open>next_quota_check\<close>, the two thresholds (5 minutes, 60 minutes) are evaluated
  with \<open>add_for_current = 1\<close> on the project's events; \<open>quota_exceeded_until\<close> becomes the
  latest boundary among the triggered thresholds, or \<open>None\<close> when none is triggered, and
  \<open>next_quota_check\<close> becomes \<open>c\<close> plus the least recheck distance, at least 1. If \<open>c\<close> is
  below \<open>next_quota_check\<close>, only the counter changes. The project is saved and processing
  goes on.
\<close>

theorem quota_recheck:
  assumes "\<not> over_quota p now"
  shows "(let c = digested_event_count p + 1;
              states = check_for_thresholds env
                         (filter (\<lambda>e. event_project_id e = project_id p) (events d))
                         now (quota_thresholds env) (Some 1);
              p' = (if next_quota_check p \<le> c
                    then p\<lparr>digested_event_count := c,
                           quota_exceeded_until :=
                             (if triggered_until states = {} then None
                              else Some (Max (triggered_until states))),
                           next_quota_check :=
                             c + max 1 (if recheck_distances states = {} then 1
                                        else Min (recheck_distances states))\<rparr>
                    else p\<lparr>digested_event_count := c\<rparr>)
          in count_project_periods_and_act_on_it env p now d = (True, p', save_project p' d))"
  using assms
  by (simp add: count_project_periods_and_act_on_it_def Let_def py_max_triggered py_min_recheck)

subsection \<open>Unmute thresholds\<close>

lemma unmute_first_triggered_none:
  "\<forall>s \<in> set states. \<not> fst s \<Longrightarrow> unmute_first_triggered env i e states d = (i, e, d)"
  by (induction states) auto

lemma unmute_first_triggered_first:
  "\<forall>s \<in> set pre. \<not> fst s \<Longrightarrow>
     unmute_first_triggered env i e (pre @ (True, until, check_after, vbc_dict) # post) d
       = unmute env i e (mute_until vbc_dict) d"
  by (induction pre) auto

text \<open>
  Claim C9. When the issue's \<open>digested_event_count\<close> is below \<open>next_unmute_check\<close>, nothing is
  evaluated and nothing changes. When the issue has unmute thresholds and the counter has
  reached \<open>next_unmute_check\<close>, the thresholds are evaluated and \<open>next_unmute_check\<close> is moved;
  then, if some threshold is triggered, \<open>IssueStateManager.unmute\<close> is applied once, with the
  \<open>mute_until\<close> metadata of the first triggered threshold, whatever the states after it are;
  if none is triggered the issue is not unmuted.
\<close>

theorem unmute_first_threshold:
  "(issue_digested_event_count i < next_unmute_check i \<longrightarrow>
      count_issue_periods_and_act_on_it env i e ts d = (i, e, d))
   \<and> (get_unmute_thresholds env i \<noteq> [] \<and> next_unmute_check i \<le> issue_digested_event_count i \<longrightarrow>
       (let states = check_for_thresholds env
                       (filter (\<lambda>x. event_issue_id x = issue_id i) (events d))
                       ts (get_unmute_thresholds env i) None;
            i1 = i\<lparr>next_unmute_check :=
                      issue_digested_event_count i
                        + max 1 (if recheck_distances states = {} then 1
                                 else Min (recheck_distances states))\<rparr>
        in (\<forall>pre until check_after vbc_dict post.
              states = pre @ (True, until, check_after, vbc_dict) # post
              \<and> (\<forall>s \<in> set pre. \<not> fst s) \<longrightarrow>
              count_issue_periods_and_act_on_it env i e ts d
                = unmute env i1 e (mute_until vbc_dict) d)
         \<and> ((\<forall>s \<in> set states. \<not> fst s) \<longrightarrow>
              count_issue_periods_and_act_on_it env i e ts d = (i1, e, d))))"
proof (intro conjI impI)
  assume "issue_digested_event_count i < next_unmute_check i"
  then show "count_issue_periods_and_act_on_it env i e ts d = (i, e, d)"
    by (simp add: count_issue_periods_and_act_on_it_def)
next
  assume due: "get_unmute_thresholds env i \<noteq> [] \<and> next_unmute_check i \<le> issue_digested_event_count i"
  define states where "states = check_for_thresholds env
                       (filter (\<lambda>x. event_issue_id x = issue_id i) (events d))
                       ts (get_unmute_thresholds env i) None"
  define i1 where "i1 = i\<lparr>next_unmute_check :=
                      issue_digested_event_count i
                        + max 1 (if recheck_distances states = {} then 1
                                 else Min (recheck_distances states))\<rparr>"
  have run: "count_issue_periods_and_act_on_it env i e ts d = unmute_first_triggered env i1 e states d"
    using due
    by (simp add: count_issue_periods_and_act_on_it_def Let_def states_def i1_def py_min_recheck)
  have a: "\<forall>pre until check_after vbc_dict post.
              states = pre @ (True, until, check_after, vbc_dict) # post
              \<and> (\<forall>s \<in> set pre. \<not> fst s) \<longrightarrow>
              count_issue_periods_and_act_on_it env i e ts d
                = unmute env i1 e (mute_until vbc_dict) d"
    unfolding run by (auto simp: unmute_first_triggered_first)
  have b: "(\<forall>s \<in> set states. \<not> fst s) \<longrightarrow>
              count_issue_periods_and_act_on_it env i e ts d = (i1, e, d)"
    unfolding run by (auto simp: unmute_first_triggered_none)
  from a b show "(let states = check_for_thresholds env
                       (filter (\<lambda>x. event_issue_id x = issue_id i) (events d))
                       ts (get_unmute_thresholds env i) None;
            i1 = i\<lparr>next_unmute_check :=
                      issue_digested_event_count i
                        + max 1 (if recheck_distances states = {} then 1
                                 else Min (recheck_distances states))\<rparr>
        in (\<forall>pre until check_after vbc_dict post.
              states = pre @ (True, until, check_after, vbc_dict) # post
              \<and> (\<forall>s \<in> set pre. \<not> fst s) \<longrightarrow>
              count_issue_periods_and_act_on_it env i e ts d
                = unmute env i1 e (mute_until vbc_dict) d)
         \<and> ((\<forall>s \<in> set states. \<not> fst s) \<longrightarrow>
              count_issue_periods_and_act_on_it env i e ts d = (i1, e, d)))"
    unfolding Let_def states_def [symmetric] i1_def [symmetric] by blast
qed

subsection \<open>Duplicate event identifiers\<close>

lemma from_ingested_duplicate:
  "list_ex (\<lambda>e. event_id e = event_id_of env data) (events d) \<Longrightarrow>
     from_ingested env md n k i data fs d = ((None, False), d)"
  by (simp add: from_ingested_def)

lemma delete_issue_gone: "\<forall>x \<in> set (issues (delete_issue env i d)). issue_id x \<noteq> issue_id i"
  by (simp add: delete_issue_def)

text \<open>
  Claim C8. Let the quota gate pass and the issue of the event's grouping be found or created,
  and let an event with the event's identifier exist when the event is to be created. Then
  \<open>Event.from_ingested\<close> creates no event and leaves the database as it is. If the issue was
  created in this call, it is deleted (no row with its id remains) and \<open>ViolatedExpectation\<close> is
  raised; otherwise \<open>ValidationError("Event already exists")\<close> is raised. The transaction then
  rolls everything back.
\<close>

theorem duplicate_identifier:
  assumes gate: "count_project_periods_and_act_on_it env p (parse_timestamp env (md_timestamp md)) d
                   = (True, p1, d1)"
    and grp: "issue_for_grouping md (parse_timestamp env (md_timestamp md))
                (denormalized_fields_of env data) (grouping_key_of env data) d1
                   = Inr (i, issue_created, d2)"
    and dup: "list_ex (\<lambda>e. event_id e = event_id_of env data)
                (events (evict_if_needed env p1 (parse_timestamp env (md_timestamp md)) d2))"
  shows "(let d3 = evict_if_needed env p1 (parse_timestamp env (md_timestamp md)) d2;
              err = (if issue_created
                     then ViolatedExpectation ''no event created, but issue created''
                     else ValidationError ''Event already exists'' ''event_already_exists'')
          in from_ingested env md (issue_digested_event_count i)
               (stored_event_count (\<lambda>e. event_issue_id e = issue_id i) d2) i data
               (denormalized_fields_of env data) d3 = ((None, False), d3)
           \<and> digest_event_body env md data p d
               = (Inl err, p1, if issue_created then delete_issue env i d3 else d3)
           \<and> (issue_created \<longrightarrow>
                (\<forall>x \<in> set (issues (delete_issue env i d3)). issue_id x \<noteq> issue_id i))
           \<and> digest_event env md data (Some p) d = (Inl err, Some p1, d))"
proof -
  let ?ts = "parse_timestamp env (md_timestamp md)"
  let ?d3 = "evict_if_needed env p1 ?ts d2"
  have fi: "from_ingested env md (issue_digested_event_count i)
               (stored_event_count (\<lambda>e. event_issue_id e = issue_id i) d2) i data
               (denormalized_fields_of env data) ?d3 = ((None, False), ?d3)"
    by (rule from_ingested_duplicate [OF dup])
  have body: "digest_event_body env md data p d
               = (Inl (if issue_created
                     then ViolatedExpectation ''no event created, but issue created''
                     else ValidationError ''Event already exists'' ''event_already_exists''),
                  p1, if issue_created then delete_issue env i ?d3 else ?d3)"
    by (simp add: digest_event_body_def gate grp fi Let_def)
  have outer: "digest_event env md data (Some p) d
               = (Inl (if issue_created
                     then ViolatedExpectation ''no event created, but issue created''
                     else ValidationError ''Event already exists'' ''event_already_exists''),
                  Some p1, d)"
    by (simp add: digest_event_def immediate_atomic_def body)
  show ?thesis
    unfolding Let_def using fi body outer delete_issue_gone [of env i ?d3] by blast
qed


definition over_quota_project :: project where
  "over_quota_project = sample_project\<lparr>quota_exceeded_until := Some 100\<rparr>"

definition over_quota_db :: "(string \<times> string) db" where
  "over_quota_db = sample_db\<lparr>projects := [over_quota_project]\<rparr>"

theorem quota_gate_witness:
  "quota_exceeded_until over_quota_project = Some 100
   \<and> parse_timestamp sample_digest_env (md_timestamp sample_metadata) < 100
   \<and> find (\<lambda>x. project_id x = md_project_id sample_metadata) (projects over_quota_db)
        = Some over_quota_project
   \<and> digest_event sample_digest_env sample_metadata (''e2'', ''boom'') (Some over_quota_project)
        over_quota_db = (Inr (), Some over_quota_project, over_quota_db)
   \<and> digest_event sample_digest_env sample_metadata (''e2'', ''boom'') None over_quota_db
        = (Inr (), Some over_quota_project, over_quota_db)"
proof -
  have h1: "quota_exceeded_until over_quota_project = Some 100"
    by (simp add: over_quota_project_def)
  have h2: "parse_timestamp sample_digest_env (md_timestamp sample_metadata) < 100"
    by (simp add: sample_digest_env_def sample_metadata_def)
  have h3: "find (\<lambda>x. project_id x = md_project_id sample_metadata) (projects over_quota_db)
        = Some over_quota_project"
    by (simp add: over_quota_db_def over_quota_project_def sample_project_def sample_metadata_def)
  from quota_gate [OF h1 h2, where d = over_quota_db and data = "(''e2'', ''boom'')"] h1 h2 h3
  show ?thesis by blast
qed

definition sample_counted_project :: project where
  "sample_counted_project = sample_project\<lparr>digested_event_count := 1, next_quota_check := 3\<rparr>"

lemma sample_count:
  "count_project_periods_and_act_on_it sample_digest_env sample_project 5 sample_db
     = (True, sample_counted_project, save_project sample_counted_project sample_db)"
  by code_simp

theorem quota_recheck_witness:
  "\<not> over_quota sample_project 5
   \<and> next_quota_check sample_project \<le> digested_event_count sample_project + 1
   \<and> count_project_periods_and_act_on_it sample_digest_env sample_project 5 sample_db
       = (True, sample_counted_project, save_project sample_counted_project sample_db)
   \<and> fst (count_project_periods_and_act_on_it sample_digest_env sample_project 5 sample_db)
   \<and> digested_event_count
         (fst (snd (count_project_periods_and_act_on_it sample_digest_env sample_project 5 sample_db)))
       = digested_event_count sample_project + 1"
proof -
  have h: "\<not> over_quota sample_project 5" by (simp add: over_quota_def sample_project_def)
  have d: "next_quota_check sample_project \<le> digested_event_count sample_project + 1"
    by (simp add: sample_project_def)
  from quota_recheck [OF h, of sample_digest_env sample_db]
  have "fst (count_project_periods_and_act_on_it sample_digest_env sample_project 5 sample_db)
   \<and> digested_event_count
         (fst (snd (count_project_periods_and_act_on_it sample_digest_env sample_project 5 sample_db)))
       = digested_event_count sample_project + 1"
    by (simp add: Let_def)
  with h d sample_count show ?thesis by blast
qed


definition sample_states :: "string threshold_state list" where
  "sample_states = [(True, 6, 1, Some ''first''), (True, 12, 1, Some ''second'')]"

definition not_due_issue :: issue where
  "not_due_issue = sample_issue\<lparr>next_unmute_check := 9\<rparr>"

lemma sample_states_eval:
  "check_for_thresholds sample_digest_env
     (filter (\<lambda>x. event_issue_id x = issue_id sample_issue) (events sample_db)) 5
     (get_unmute_thresholds sample_digest_env sample_issue) None = sample_states"
  by code_simp

lemma sample_recheck_distances: "recheck_distances sample_states = {1}"
  unfolding recheck_distances_set [symmetric] by (simp add: sample_states_def)

theorem unmute_first_threshold_witness:
  "get_unmute_thresholds sample_digest_env sample_issue \<noteq> []
   \<and> next_unmute_check sample_issue \<le> issue_digested_event_count sample_issue
   \<and> sample_states = [] @ (True, 6, 1, Some ''first'') # [(True, 12, 1, Some ''second'')]
   \<and> list_all (\<lambda>s. \<not> fst s) ([] :: string threshold_state list)
   \<and> count_issue_periods_and_act_on_it sample_digest_env sample_issue sample_event 5 sample_db
       = unmute sample_digest_env (sample_issue\<lparr>next_unmute_check := 6\<rparr>) sample_event
           (mute_until (Some ''first'')) sample_db
   \<and> issue_digested_event_count not_due_issue < next_unmute_check not_due_issue
   \<and> count_issue_periods_and_act_on_it sample_digest_env not_due_issue sample_event 5 sample_db
       = (not_due_issue, sample_event, sample_db)"
proof -
  have due: "get_unmute_thresholds sample_digest_env sample_issue \<noteq> []
             \<and> next_unmute_check sample_issue \<le> issue_digested_event_count sample_issue"
    by (simp add: sample_digest_env_def sample_issue_def)
  have split: "sample_states = [] @ (True, 6, 1, Some ''first'') # [(True, 12, 1, Some ''second'')]"
    by (simp add: sample_states_def)
  have pre: "\<forall>s \<in> set ([] :: string threshold_state list). \<not> fst s" by simp
  have nd: "issue_digested_event_count not_due_issue < next_unmute_check not_due_issue"
    by (simp add: not_due_issue_def sample_issue_def)
  have i1: "sample_issue\<lparr>next_unmute_check :=
              issue_digested_event_count sample_issue
                + max 1 (if recheck_distances sample_states = {} then 1
                         else Min (recheck_distances sample_states))\<rparr>
            = sample_issue\<lparr>next_unmute_check := 6\<rparr>"
    by (simp add: sample_recheck_distances sample_issue_def)
  note t = unmute_first_threshold [of sample_issue sample_digest_env sample_event 5 sample_db]
  from t due have
    "\<forall>pre until check_after vbc_dict post.
        sample_states = pre @ (True, until, check_after, vbc_dict) # post
        \<and> (\<forall>s \<in> set pre. \<not> fst s) \<longrightarrow>
        count_issue_periods_and_act_on_it sample_digest_env sample_issue sample_event 5 sample_db
          = unmute sample_digest_env (sample_issue\<lparr>next_unmute_check := 6\<rparr>) sample_event
              (mute_until vbc_dict) sample_db"
    unfolding Let_def sample_states_eval i1 by blast
  with split pre have a:
    "count_issue_periods_and_act_on_it sample_digest_env sample_issue sample_event 5 sample_db
       = unmute sample_digest_env (sample_issue\<lparr>next_unmute_check := 6\<rparr>) sample_event
           (mute_until (Some ''first'')) sample_db"
    by blast
  from unmute_first_threshold [of not_due_issue sample_digest_env sample_event 5 sample_db] nd
  have b: "count_issue_periods_and_act_on_it sample_digest_env not_due_issue sample_event 5 sample_db
       = (not_due_issue, sample_event, sample_db)"
    by blast
  have pre': "list_all (\<lambda>s. \<not> fst s) ([] :: string threshold_state list)" by simp
  from due split pre' a nd b show ?thesis by blast
qed

definition sample_new_issue :: issue where
  "sample_new_issue =
     \<lparr>issue_id = 2, issue_project_id = 1, digest_order = 2, first_seen = 5, last_seen = 5,
      issue_digested_event_count = 1, next_unmute_check = 0, is_muted = False,
      unmute_after = None, events_at = [],
      issue_fields = [(''calculated_type'', ''Error''), (''calculated_value'', ''other'')]\<rparr>"

definition sample_counted_db :: "(string \<times> string) db" where
  "sample_counted_db = save_project sample_counted_project sample_db"

definition sample_grouped_db :: "(string \<times> string) db" where
  "sample_grouped_db =
     sample_counted_db
       \<lparr>issues := [sample_issue, sample_new_issue],
        groupings := [\<lparr>grouping_project_id = 1, grouping_key = ''boom'', grouping_issue_id = 1\<rparr>,
                      \<lparr>grouping_project_id = 1, grouping_key = ''other'', grouping_issue_id = 2\<rparr>]\<rparr>"

definition sample_seen_issue :: issue where
  "sample_seen_issue = sample_issue\<lparr>last_seen := 5, issue_digested_event_count := 6\<rparr>"

lemma sample_timestamp: "parse_timestamp sample_digest_env (md_timestamp sample_metadata) = 5"
  by (simp add: sample_digest_env_def sample_metadata_def)

lemma sample_new_grouping:
  "issue_for_grouping sample_metadata 5
     (denormalized_fields_of sample_digest_env (''e1'', ''other''))
     (grouping_key_of sample_digest_env (''e1'', ''other'')) sample_counted_db
   = Inr (sample_new_issue, True, sample_grouped_db)"
  by code_simp

lemma sample_old_grouping:
  "issue_for_grouping sample_metadata 5
     (denormalized_fields_of sample_digest_env (''e1'', ''boom''))
     (grouping_key_of sample_digest_env (''e1'', ''boom'')) sample_counted_db
   = Inr (sample_seen_issue, False, sample_counted_db)"
  by code_simp

lemma sample_no_eviction: "evict_if_needed sample_digest_env p ts d = d"
  by (simp add: evict_if_needed_def sample_digest_env_def)

theorem duplicate_identifier_witness:
  "count_project_periods_and_act_on_it sample_digest_env sample_project
     (parse_timestamp sample_digest_env (md_timestamp sample_metadata)) sample_db
     = (True, sample_counted_project, sample_counted_db)
   \<and> list_ex (\<lambda>e. event_id e = event_id_of sample_digest_env (''e1'', ''other''))
        (events (evict_if_needed sample_digest_env sample_counted_project
                   (parse_timestamp sample_digest_env (md_timestamp sample_metadata))
                   sample_grouped_db))
   \<and> digest_event_body sample_digest_env sample_metadata (''e1'', ''other'') sample_project sample_db
       = (Inl (ViolatedExpectation ''no event created, but issue created''), sample_counted_project,
          delete_issue sample_digest_env sample_new_issue sample_grouped_db)
   \<and> digest_event sample_digest_env sample_metadata (''e1'', ''other'') (Some sample_project) sample_db
       = (Inl (ViolatedExpectation ''no event created, but issue created''),
          Some sample_counted_project, sample_db)
   \<and> digest_event_body sample_digest_env sample_metadata (''e1'', ''boom'') sample_project sample_db
       = (Inl (ValidationError ''Event already exists'' ''event_already_exists''),
          sample_counted_project, sample_counted_db)
   \<and> digest_event sample_digest_env sample_metadata (''e1'', ''boom'') (Some sample_project) sample_db
       = (Inl (ValidationError ''Event already exists'' ''event_already_exists''),
          Some sample_counted_project, sample_db)"
proof -
  have gate: "count_project_periods_and_act_on_it sample_digest_env sample_project
     (parse_timestamp sample_digest_env (md_timestamp sample_metadata)) sample_db
     = (True, sample_counted_project, sample_counted_db)"
    unfolding sample_timestamp sample_counted_db_def by (rule sample_count)
  have g1: "issue_for_grouping sample_metadata
     (parse_timestamp sample_digest_env (md_timestamp sample_metadata))
     (denormalized_fields_of sample_digest_env (''e1'', ''other''))
     (grouping_key_of sample_digest_env (''e1'', ''other'')) sample_counted_db
   = Inr (sample_new_issue, True, sample_grouped_db)"
    unfolding sample_timestamp by (rule sample_new_grouping)
  have g2: "issue_for_grouping sample_metadata
     (parse_timestamp sample_digest_env (md_timestamp sample_metadata))
     (denormalized_fields_of sample_digest_env (''e1'', ''boom''))
     (grouping_key_of sample_digest_env (''e1'', ''boom'')) sample_counted_db
   = Inr (sample_seen_issue, False, sample_counted_db)"
    unfolding sample_timestamp by (rule sample_old_grouping)
  have d1: "list_ex (\<lambda>e. event_id e = event_id_of sample_digest_env (''e1'', ''other''))
        (events (evict_if_needed sample_digest_env sample_counted_project
                   (parse_timestamp sample_digest_env (md_timestamp sample_metadata))
                   sample_grouped_db))"
    unfolding sample_no_eviction by code_simp
  have d2: "list_ex (\<lambda>e. event_id e = event_id_of sample_digest_env (''e1'', ''boom''))
        (events (evict_if_needed sample_digest_env sample_counted_project
                   (parse_timestamp sample_digest_env (md_timestamp sample_metadata))
                   sample_counted_db))"
    unfolding sample_no_eviction by code_simp
  from duplicate_identifier [OF gate g1 d1]
  have a: "digest_event_body sample_digest_env sample_metadata (''e1'', ''other'') sample_project sample_db
       = (Inl (ViolatedExpectation ''no event created, but issue created''), sample_counted_project,
          delete_issue sample_digest_env sample_new_issue sample_grouped_db)
   \<and> digest_event sample_digest_env sample_metadata (''e1'', ''other'') (Some sample_project) sample_db
       = (Inl (ViolatedExpectation ''no event created, but issue created''),
          Some sample_counted_project, sample_db)"
    unfolding Let_def sample_no_eviction by simp
  from duplicate_identifier [OF gate g2 d2]
  have b: "digest_event_body sample_digest_env sample_metadata (''e1'', ''boom'') sample_project sample_db
       = (Inl (ValidationError ''Event already exists'' ''event_already_exists''),
          sample_counted_project, sample_counted_db)
   \<and> digest_event sample_digest_env sample_metadata (''e1'', ''boom'') (Some sample_project) sample_db
       = (Inl (ValidationError ''Event already exists'' ''event_already_exists''),
          Some sample_counted_project, sample_db)"
    unfolding Let_def sample_no_eviction by simp
  from gate d1 a b show ?thesis by blast
qed

end
